theory Spec2Isabelle
  imports Complex_Main "HOL-Library.Multiset"
begin

section \<open>Data model of \<open>cinterp_skel.c\<close>\<close>

text \<open>
  The C types are rendered as follows.
  \<^item> \<open>double\<close> is \<open>real\<close>: the arithmetic of the model is exact, and neither rounding nor
    NaN and infinities are represented. Division by zero and the square root of a
    negative number, which give infinities and NaN in C, are excluded by hypotheses
    wherever a statement depends on them.
  \<^item> \<open>mwSize\<close> and \<open>mwIndex\<close> (unsigned) are \<open>nat\<close>, \<open>mwSignedIndex\<close> and \<open>int\<close> are
    \<open>int\<close>; overflow is not represented.
  \<^item> A dense array is a list. A sparse vector \<open>(n, index array, value array)\<close> is its
    index list and its value list, of which the first \<open>n\<close> entries are used.
  \<^item> \<open>sp_mat_c\<close> is the compressed-column matrix: \<open>mat_m\<close>, \<open>mat_n\<close> are the fields
    \<open>m\<close>, \<open>n\<close>; \<open>jc\<close>, \<open>ir\<close>, \<open>pr\<close> are the column pointers, row indices and values.
\<close>

record sp_mat_c =
  mat_m :: nat
  mat_n :: nat
  jc :: "nat list"
  ir :: "nat list"
  pr :: "real list"

text \<open>\<open>sp_log_mat\<close>, the logical (pattern only) matrix \<open>X_skel\<close>.\<close>

record sp_log_mat =
  log_m :: nat
  log_n :: nat
  nzmax :: nat
  log_jc :: "nat list"
  log_ir :: "nat list"

text \<open>The stored entries \<open>(row, value)\<close> of column \<open>j\<close>, in storage order:
  what the pointer pair \<open>(Air, Apr)\<close> runs over from \<open>jc[j]\<close> to \<open>jc[j+1]\<close>.\<close>

definition col_entries :: "sp_mat_c \<Rightarrow> nat \<Rightarrow> (nat \<times> real) list" where
  "col_entries A j = map (\<lambda>t. (ir A ! t, pr A ! t)) [jc A ! j ..< jc A ! (j + 1)]"

section \<open>Index heaps\<close>

text \<open>
  Both \<open>sp_mv\<close> and \<open>heap_sort\<close> address their index array through \<open>heap = yi - 1\<close>
  (resp. \<open>uv - 1\<close>), that is, with indices starting at 1.
\<close>

definition heap_get :: "nat list \<Rightarrow> nat \<Rightarrow> nat" where
  "heap_get heap k = heap ! (k - 1)"

definition heap_set :: "nat list \<Rightarrow> nat \<Rightarrow> nat \<Rightarrow> nat list" where
  "heap_set heap k v = heap[k - 1 := v]"

text \<open>The \<open>while(hole>1)\<close> loop of \<open>sp_mv\<close> (lines 57-62), with the final
  \<open>heap[hole]=i\<close>.\<close>

function sift_up :: "nat list \<Rightarrow> nat \<Rightarrow> nat \<Rightarrow> nat list" where
  "sift_up heap hole i =
     (if hole > 1 then
        (let parent = hole div 2; ip = heap_get heap parent in
         if i < ip then heap_set heap hole i
         else sift_up (heap_set heap hole ip) parent i)
      else heap_set heap hole i)"
  by pat_completeness auto
termination
  by (relation "measure (\<lambda>(heap, hole, i). hole)") auto

declare sift_up.simps [simp del]

text \<open>The inner \<open>for(;;)\<close> loop of the drain (lines 72-78 and 179-185), with the final
  \<open>heap[hole]=i\<close>. The loop starts at \<open>hole = 1\<close> and \<open>hole\<close> only grows; \<open>hole = 0\<close>
  would address \<open>heap[0]\<close>, the element before the array, and is given the
  unchanged array here.\<close>

function sift_down :: "nat list \<Rightarrow> nat \<Rightarrow> nat \<Rightarrow> nat \<Rightarrow> nat list" where
  "sift_down heap hi i hole =
     (if hole = 0 then heap
      else
        (let child = 2 * hole; r = child + 1;
             child = (if r < hi \<and> heap_get heap r > heap_get heap child then r else child) in
         if child \<ge> hi \<or> i \<ge> heap_get heap child then heap_set heap hole i
         else sift_down (heap_set heap hole (heap_get heap child)) hi i child))"
  by pat_completeness auto
termination
  by (relation "measure (\<lambda>(heap, hi, i, hole). hi - hole)") (auto simp: Let_def split: if_splits)

declare sift_down.simps [simp del]

text \<open>The drain loop \<open>for(hi=yn;hi>1;--hi)\<close> (lines 68-79 of \<open>sp_mv\<close>, and the same
  loop at lines 175-186 of \<open>heap_sort\<close>).\<close>

function drain :: "nat \<Rightarrow> nat list \<Rightarrow> nat list" where
  "drain hi heap =
     (if hi > 1 then
        (let i = heap_get heap hi;
             heap1 = heap_set heap hi (heap_get heap 1) in
         drain (hi - 1) (sift_down heap1 hi i 1))
      else heap)"
  by pat_completeness auto
termination
  by (relation "measure (\<lambda>(hi, heap). hi)") auto

declare drain.simps [simp del]

section \<open>\<open>sp_mv\<close>: masked sparse matrix times sparse vector\<close>

text \<open>
  The working state of \<open>sp_mv\<close>: \<open>mv_heap\<close> is the used part \<open>yi[0..yn-1]\<close> of the output
  index array (so \<open>yn\<close> is its length), \<open>mv_sv\<close> and \<open>mv_flag\<close> are the dense work arrays.
  \<open>hole = ++yn\<close> takes one more slot of \<open>yi\<close> into use; its old content is never read,
  since the first access to it is a write.
\<close>

record mv_state =
  mv_heap :: "nat list"
  mv_sv :: "real list"
  mv_flag :: "nat list"

text \<open>The body of the inner loop (lines 51-65) for one stored entry \<open>(i, *Apr)\<close>.\<close>

definition sp_mv_entry :: "int list \<Rightarrow> real \<Rightarrow> mv_state \<Rightarrow> nat \<times> real \<Rightarrow> mv_state" where
  "sp_mv_entry msk xj st e =
     (case e of (i, a) \<Rightarrow>
        if msk ! i \<ge> 0 then st
        else
          (let st1 =
                 (if mv_flag st ! i = 0 then
                    st\<lparr>mv_heap := sift_up (mv_heap st @ [0]) (length (mv_heap st) + 1) i,
                       mv_flag := (mv_flag st)[i := 1],
                       mv_sv := (mv_sv st)[i := 0]\<rparr>
                  else st)
           in st1\<lparr>mv_sv := (mv_sv st1)[i := mv_sv st1 ! i + a * xj]\<rparr>))"

text \<open>The body of the outer loop (lines 45-66) for one component \<open>(j, xj)\<close> of \<open>x\<close>.\<close>

definition sp_mv_col :: "sp_mat_c \<Rightarrow> int list \<Rightarrow> mv_state \<Rightarrow> nat \<times> real \<Rightarrow> mv_state" where
  "sp_mv_col A msk st e =
     (case e of (j, xj) \<Rightarrow>
        if \<bar>xj\<bar> = 0 then st
        else foldl (sp_mv_entry msk xj) st (col_entries A j))"

text \<open>\<open>sp_mv\<close> returns \<open>yn\<close>; the model returns with it the arrays it wrote:
  \<open>(yn, yi, y, sv, flag)\<close>.\<close>

definition sp_mv ::
  "sp_mat_c \<Rightarrow> nat \<Rightarrow> nat list \<Rightarrow> real list \<Rightarrow> real list \<Rightarrow> nat list \<Rightarrow> int list
   \<Rightarrow> nat \<times> nat list \<times> real list \<times> real list \<times> nat list" where
  "sp_mv A xn xi x sv flag msk =
     (let st = foldl (sp_mv_col A msk)
                 \<lparr>mv_heap = [], mv_sv = sv, mv_flag = flag\<rparr>
                 (zip (take xn xi) (take xn x));
          yn = length (mv_heap st);
          yi = drain yn (mv_heap st);
          y = map (\<lambda>i. mv_sv st ! i) yi;
          flag' = foldl (\<lambda>f i. f[i := 0]) (mv_flag st) yi
      in (yn, yi, y, mv_sv st, flag'))"

section \<open>\<open>resid_update\<close>\<close>

text \<open>
  \<open>resid_update\<close> merges the sparse vectors \<open>x\<close> and \<open>y\<close>, given here as lists of
  \<open>(index, value)\<close> pairs (the pointer pairs \<open>(xi, xp)\<close> and \<open>(yi, yp)\<close> advance
  together). The emitted entries \<open>*ri++, *rp++\<close> are the result list, and \<open>beta\<close> is
  threaded through. The first equation is the three-way branch of the main loop
  (lines 101-125), the next two are the tail loops (lines 128-142).
\<close>

fun resid_update ::
  "real list \<Rightarrow> (nat \<times> real) list \<Rightarrow> real \<Rightarrow> (nat \<times> real) list \<Rightarrow> int list
   \<Rightarrow> (nat \<times> real) list \<times> real list" where
  "resid_update beta ((ix, x) # xs) alpha ((iy, y) # ys) msk =
     (if ix < iy then
        (let (r, beta') = resid_update beta xs alpha ((iy, y) # ys) msk in
         (if msk ! ix < 0 then (ix, x) # r else r, beta'))
      else if ix > iy then
        (let (r, beta') = resid_update (beta[iy := y * y]) ((ix, x) # xs) alpha ys msk in
         (if msk ! iy < 0 then (iy, - alpha * y) # r else r, beta'))
      else
        (let (r, beta') = resid_update (beta[iy := beta ! iy + y * y]) xs alpha ys msk in
         (if msk ! iy < 0 then (iy, x - alpha * y) # r else r, beta')))"
| "resid_update beta ((ix, x) # xs) alpha [] msk =
     (let (r, beta') = resid_update beta xs alpha [] msk in
      (if msk ! ix < 0 then (ix, x) # r else r, beta'))"
| "resid_update beta [] alpha ((iy, y) # ys) msk =
     (let (r, beta') = resid_update (beta[iy := y * y]) [] alpha ys msk in
      (if msk ! iy < 0 then (iy, - alpha * y) # r else r, beta'))"
| "resid_update beta [] alpha [] msk = ([], beta)"

section \<open>\<open>heap_sort\<close>\<close>

text \<open>The \<open>do ... while(hole>1)\<close> loop of the heap construction (lines 168-173), with
  the final \<open>heap[hole]=v\<close>.\<close>

function build_sift :: "nat list \<Rightarrow> nat \<Rightarrow> nat \<Rightarrow> nat list" where
  "build_sift heap hole v =
     (let parent = hole div 2; vp = heap_get heap parent in
      if v < vp then heap_set heap hole v
      else
        (let heap1 = heap_set heap hole vp in
         if parent > 1 then build_sift heap1 parent v
         else heap_set heap1 parent v))"
  by pat_completeness auto
termination
  by (relation "measure (\<lambda>(heap, hole, v). hole)") auto

declare build_sift.simps [simp del]

text \<open>The construction loop \<open>for(i=2;i<=un;++i)\<close> (lines 166-174).\<close>

function build_heap :: "nat \<Rightarrow> nat \<Rightarrow> nat list \<Rightarrow> nat list" where
  "build_heap un i heap =
     (if i \<le> un then
        build_heap un (i + 1)
          (if heap_get heap i > heap_get heap (i div 2)
           then build_sift heap i (heap_get heap i) else heap)
      else heap)"
  by pat_completeness auto
termination
  by (relation "measure (\<lambda>(un, i, heap). un + 1 - i)") auto

declare build_heap.simps [simp del]

definition heap_sort :: "nat \<Rightarrow> nat list \<Rightarrow> nat list" where
  "heap_sort un uv = drain un (build_heap un 2 uv)"

section \<open>Operations on the packed triangular basis\<close>

text \<open>
  \<open>sp_restrict_unsorted\<close>, \<open>mv_utt\<close> and \<open>mv_ut\<close> are defined in
  \<open>cinterp_common.h\<close>, which \<open>cinterp_skel.c\<close> includes. The entry \<open>Q_rc\<close> (\<open>r \<le> c\<close>) of
  the packed upper-triangular matrix is stored at position \<open>c(c+1)/2 + r\<close>.
\<close>

definition tri_at :: "real list \<Rightarrow> nat \<Rightarrow> nat \<Rightarrow> real" where
  "tri_at Qt r c = Qt ! (c * (c + 1) div 2 + r)"

text \<open>Modelled from the spec: \<open>sp_restrict_unsorted\<close> of \<open>cinterp_common.h\<close>, which gathers
  the sparse vector \<open>(nz, idx, val)\<close> into a dense vector of length \<open>k+1\<close> through the
  map: the entry of row \<open>i\<close> goes to position \<open>map_to_Qi[i]\<close> when that is not negative.\<close>

definition sp_restrict_unsorted ::
  "nat \<Rightarrow> int list \<Rightarrow> nat \<Rightarrow> nat list \<Rightarrow> real list \<Rightarrow> real list" where
  "sp_restrict_unsorted kk mp nz idx val =
     foldl (\<lambda>out e. case e of (i, v) \<Rightarrow> if mp ! i \<ge> 0 then out[nat (mp ! i) := v] else out)
       (replicate (kk + 1) 0) (zip (take nz idx) (take nz val))"

text \<open>Modelled from the spec: \<open>mv_utt\<close> of \<open>cinterp_common.h\<close>,
  \<open>out := (Q[:,0:k])\<^sup>T x\<close>, of length \<open>k\<close>.\<close>

definition mv_utt :: "nat \<Rightarrow> real list \<Rightarrow> real list \<Rightarrow> real list" where
  "mv_utt kk Qt x = map (\<lambda>c. \<Sum>r\<leftarrow>[0..<c + 1]. tri_at Qt r c * x ! r) [0..<kk]"

text \<open>Modelled from the spec: \<open>mv_ut\<close> of \<open>cinterp_common.h\<close>,
  \<open>out := Q[:,0:k] x\<close>, of length \<open>k+1\<close> with last component 0.\<close>

definition mv_ut :: "nat \<Rightarrow> real list \<Rightarrow> real list \<Rightarrow> real list" where
  "mv_ut kk Qt x = map (\<lambda>r. \<Sum>c\<leftarrow>[r..<kk]. tri_at Qt r c * x ! c) [0..<kk] @ [0]"

section \<open>\<open>interp_skel\<close>\<close>

text \<open>
  The variables of \<open>interp_skel\<close> that live across loop iterations.
  \<^item> \<open>X_ir\<close> is \<open>X_skel->ir[0..iri-1]\<close>, so \<open>iri\<close> is its length and \<open>*irp++=s, ++iri\<close>
    appends; \<open>X_jc\<close> holds the entries written through \<open>jcp\<close> so far; \<open>X_nzmax\<close> is
    \<open>X_skel->nzmax\<close>. A reallocation keeps the contents, so only the capacities
    \<open>X_nzmax\<close> and \<open>max_Q\<close> record it.
  \<^item> \<open>Qi_off\<close> is the offset of the pointer \<open>Qi\<close> into \<open>X_skel->ir\<close>.
  \<^item> \<open>Q_tri\<close> holds the columns \<open>0..k-1\<close> of \<open>Q\<close> filled in for the current column of
    \<open>X\<close>; \<open>++k, qk+=k\<close> appends the column \<open>qk\<close> just computed.
  \<^item> \<open>ri\<close>, \<open>rp\<close> are the used parts of the residual's arrays, \<open>rnz\<close> their length.
  \<^item> \<open>beta\<close>, \<open>sp\<close>, \<open>map_to_Qi\<close>, \<open>flag\<close>, \<open>X_sum\<close> are the dense arrays of length \<open>nf\<close>.
  \<^item> \<open>cur_k\<close>, \<open>cur_s\<close>, \<open>cur_w\<close>, \<open>cur_norm\<close> are the locals \<open>k\<close>, \<open>s\<close>, \<open>w\<close>, \<open>norm\<close>.
\<close>

record work =
  X_ir :: "nat list"
  X_jc :: "nat list"
  X_nzmax :: nat
  max_Q :: nat
  Q_tri :: "real list"
  Qi_off :: nat
  X_sum :: "real list"
  beta :: "real list"
  ri :: "nat list"
  rp :: "real list"
  sp :: "real list"
  map_to_Qi :: "int list"
  flag :: "nat list"
  cur_k :: nat
  cur_s :: nat
  cur_w :: real
  cur_norm :: real

text \<open>The build-time constant \<open>STOP_TEST\<close> is the parameter \<open>stop\<close>.
  The adjustment of \<open>tol\<close> on entry (lines 215-219).\<close>

definition adjust_tol :: "nat \<Rightarrow> real \<Rightarrow> real" where
  "adjust_tol stop tol =
     (if stop = 1 then tol * (0.5 * tol)
      else if stop = 2 then tol * 0.5
      else tol)"

text \<open>The update of \<open>norm\<close> by the term \<open>tn\<close> (lines 273-277 and 353-357).\<close>

definition norm_acc :: "nat \<Rightarrow> real \<Rightarrow> real \<Rightarrow> real" where
  "norm_acc stop nrm tn =
     (if stop = 1 then (if tn > nrm then tn else nrm)
      else if stop = 2 then nrm + tn
      else nrm)"

text \<open>The body of the initial scan (lines 269-277) on the entry \<open>(i, r)\<close> of the
  residual; the state is \<open>(s, w, norm, beta)\<close>.\<close>

definition init_step ::
  "nat \<Rightarrow> real list \<Rightarrow> nat \<times> real \<times> real \<times> real list \<Rightarrow> nat \<times> real
   \<Rightarrow> nat \<times> real \<times> real \<times> real list" where
  "init_step stop D acc e =
     (case acc of (s0, w0, nrm, bt) \<Rightarrow> case e of (i, r) \<Rightarrow>
        (let d = D ! i; tw = r / sqrt d; tn = \<bar>r / d\<bar>;
             bt1 = bt[i := 0];
             (w1, s1) = (if \<bar>tw\<bar> > \<bar>w0\<bar> then (tw, i) else (w0, s0))
         in (s1, w1, norm_acc stop nrm tn, bt1)))"

text \<open>Lines 267-278: \<open>s\<close>, \<open>w\<close>, \<open>norm\<close> and \<open>beta\<close> from the initial residual, which is
  not empty.\<close>

definition init_scan ::
  "nat \<Rightarrow> real list \<Rightarrow> nat list \<Rightarrow> real list \<Rightarrow> real list
   \<Rightarrow> nat \<times> real \<times> real \<times> real list" where
  "init_scan stop D rix rpx bt =
     (let s0 = rix ! 0 in
      foldl (init_step stop D)
        (s0, rpx ! 0 / sqrt (D ! s0), \<bar>rpx ! 0 / D ! s0\<bar>, bt[s0 := 0])
        (zip (tl rix) (tl rpx)))"

text \<open>The body of the scan of the updated residual (lines 350-357); the state is
  \<open>(s, w, norm)\<close>.\<close>

definition rescan_step ::
  "nat \<Rightarrow> real list \<Rightarrow> real list \<Rightarrow> nat \<times> real \<times> real \<Rightarrow> nat \<times> real
   \<Rightarrow> nat \<times> real \<times> real" where
  "rescan_step stop D bt acc e =
     (case acc of (s0, w0, nrm) \<Rightarrow> case e of (i, r) \<Rightarrow>
        (let d = D ! i - bt ! i; tn = \<bar>r / d\<bar>; tw = r / sqrt d;
             (w1, s1) = (if \<bar>tw\<bar> > \<bar>w0\<bar> then (tw, i) else (w0, s0))
         in (s1, w1, norm_acc stop nrm tn)))"

text \<open>Lines 345-358.\<close>

definition rescan ::
  "nat \<Rightarrow> real list \<Rightarrow> real list \<Rightarrow> nat list \<Rightarrow> real list \<Rightarrow> nat \<Rightarrow> real
   \<Rightarrow> nat \<times> real \<times> real" where
  "rescan stop D bt rix rpx s_old w_old =
     (if length rix > 0 then
        (let s0 = rix ! 0 in
         foldl (rescan_step stop D bt)
           (s0, rpx ! 0 / sqrt (D ! s0 - bt ! s0), \<bar>rpx ! 0 / (D ! s0 - bt ! s0)\<bar>)
           (zip (tl rix) (tl rpx)))
      else (s_old, w_old, 0))"

text \<open>The body of the expansion loop \<open>while(norm>tol)\<close> (lines 280-359).\<close>

definition expand_step ::
  "nat \<Rightarrow> sp_mat_c \<Rightarrow> real list \<Rightarrow> real list \<Rightarrow> nat \<Rightarrow> work \<Rightarrow> work" where
  "expand_step stop A D u j st =
     (let kk = cur_k st; s0 = cur_s st; w0 = cur_w st;
          nzmax1 = (if length (X_ir st) = X_nzmax st then 2 * X_nzmax st else X_nzmax st);
          max_Q1 = (if kk + 1 > max_Q st then 2 * max_Q st else max_Q st);
          ir1 = X_ir st @ [s0];
          mp1 = (map_to_Qi st)[s0 := int kk];
          Qi = drop (Qi_off st) ir1;
          qk0 = sp_restrict_unsorted kk mp1 (jc A ! (s0 + 1) - jc A ! s0)
                  (drop (jc A ! s0) (ir A)) (drop (jc A ! s0) (pr A));
          sp1 = mv_utt kk (Q_tri st) qk0 @ drop kk (sp st);
          qk1 = mv_ut kk (Q_tri st) sp1;
          norm_fac = - 1 / sqrt (D ! s0 - beta st ! s0);
          qk = map (\<lambda>v. v * norm_fac) (take kk qk1) @ [- norm_fac];
          ujw = u ! j * w0;
          X_sum1 = foldl (\<lambda>X m. X[Qi ! m := X ! (Qi ! m) + ujw * qk ! m])
                     (X_sum st) [0..<kk + 1];
          (Aqk_nz, Aqk_i, Aqk_p, sp2, flag1) =
             sp_mv A (kk + 1) Qi qk sp1 (flag st) mp1;
          si = ri st;
          sp3 = rp st @ drop (length (rp st)) sp2;
          (r1, beta1) =
             resid_update (beta st) (zip si (take (length si) sp3)) w0
               (zip (take Aqk_nz Aqk_i) (take Aqk_nz Aqk_p)) mp1;
          (s1, w1, norm1) = rescan stop D beta1 (map fst r1) (map snd r1) s0 w0
      in st\<lparr>X_ir := ir1, X_nzmax := nzmax1, max_Q := max_Q1,
            Q_tri := Q_tri st @ qk, X_sum := X_sum1, beta := beta1,
            ri := map fst r1, rp := map snd r1, sp := sp3,
            map_to_Qi := mp1, flag := flag1,
            cur_k := kk + 1, cur_s := s1, cur_w := w1, cur_norm := norm1\<rparr>)"

text \<open>The expansion loop. It need not end (with a negative \<open>tol\<close> and an empty
  residual \<open>norm = 0 > tol\<close> holds for ever), so not returning is the value \<open>None\<close>.\<close>

partial_function (option) expand_loop ::
  "nat \<Rightarrow> sp_mat_c \<Rightarrow> real list \<Rightarrow> real list \<Rightarrow> nat \<Rightarrow> real \<Rightarrow> work \<Rightarrow> work option" where
  "expand_loop stop A D u j tol st =
     (if cur_norm st > tol then expand_loop stop A D u j tol (expand_step stop A D u j st)
      else Some st)"

text \<open>Lines 361-365: the pivots of the column are sorted and \<open>map_to_Qi\<close> is reset.\<close>

definition finish_column :: "work \<Rightarrow> work" where
  "finish_column st =
     (let kk = cur_k st;
          Qi = heap_sort kk (drop (Qi_off st) (X_ir st));
          mp = foldl (\<lambda>mp m. mp[Qi ! m := - 1]) (map_to_Qi st) [0..<kk]
      in st\<lparr>X_ir := take (Qi_off st) (X_ir st) @ Qi, map_to_Qi := mp\<rparr>)"

text \<open>Lines 264-278: the residual is set to column \<open>j\<close> of \<open>B\<close>, which has
  \<open>rnz \<ge> 1\<close> entries, and scanned.\<close>

definition column_init :: "nat \<Rightarrow> sp_mat_c \<Rightarrow> real list \<Rightarrow> work \<Rightarrow> nat \<Rightarrow> work" where
  "column_init stop B D st j =
     (let rnz = jc B ! (j + 1) - jc B ! j;
          ri1 = take rnz (drop (jc B ! j) (ir B));
          rp1 = take rnz (drop (jc B ! j) (pr B));
          (s1, w1, norm1, beta1) = init_scan stop D ri1 rp1 (beta st)
      in st\<lparr>ri := ri1, rp := rp1, beta := beta1,
            cur_s := s1, cur_w := w1, cur_norm := norm1\<rparr>)"

text \<open>The body of the loop over the columns (lines 243-368) for column \<open>j\<close>.\<close>

definition solve_column ::
  "nat \<Rightarrow> sp_mat_c \<Rightarrow> sp_mat_c \<Rightarrow> real list \<Rightarrow> real list \<Rightarrow> real \<Rightarrow> work \<Rightarrow> nat
   \<Rightarrow> work option" where
  "solve_column stop A B D u tol st j =
     (let st1 = st\<lparr>cur_k := 0, Qi_off := length (X_ir st), Q_tri := [],
                   X_jc := X_jc st @ [length (X_ir st)]\<rparr>;
          rnz = jc B ! (j + 1) - jc B ! j
      in if rnz < 1 then Some st1
         else
           (case expand_loop stop A D u j tol (column_init stop B D st1 j) of
              None \<Rightarrow> None
            | Some st3 \<Rightarrow> Some (finish_column st3)))"

text \<open>The loop \<open>for(j=0;j<nc;++j)\<close> over the columns \<open>js\<close>.\<close>

fun solve_columns ::
  "nat \<Rightarrow> sp_mat_c \<Rightarrow> sp_mat_c \<Rightarrow> real list \<Rightarrow> real list \<Rightarrow> real \<Rightarrow> nat list \<Rightarrow> work
   \<Rightarrow> work option" where
  "solve_columns stop A B D u tol [] st = Some st"
| "solve_columns stop A B D u tol (j # js) st =
     (case solve_column stop A B D u tol st j of
        None \<Rightarrow> None
      | Some st' \<Rightarrow> solve_columns stop A B D u tol js st')"

text \<open>The state after the initialisations (lines 221-241). The arrays that
  \<open>mem_alloc\<close> returns without initialising (\<open>beta\<close>, \<open>sp\<close>) are given zeros here: every
  entry of them is written before it is read.\<close>

definition init_work :: "sp_mat_c \<Rightarrow> work" where
  "init_work B =
     (let nf = mat_m B; nc = mat_n B in
      \<lparr>X_ir = [], X_jc = [], X_nzmax = 2 * (jc B ! nc), max_Q = 35, Q_tri = [],
       Qi_off = 0, X_sum = replicate nf 0, beta = replicate nf 0, ri = [], rp = [],
       sp = replicate nf 0, map_to_Qi = replicate nf (- 1), flag = replicate nf 0,
       cur_k = 0, cur_s = 0, cur_w = 0, cur_norm = 0\<rparr>)"

text \<open>\<open>interp_skel\<close> returns \<open>X_skel\<close> and \<open>X_sum\<close>, or \<open>None\<close> when it does not return.\<close>

definition interp_skel ::
  "nat \<Rightarrow> sp_mat_c \<Rightarrow> sp_mat_c \<Rightarrow> real list \<Rightarrow> real list \<Rightarrow> real
   \<Rightarrow> (sp_log_mat \<times> real list) option" where
  "interp_skel stop A B D u tol =
     (let tol1 = adjust_tol stop tol in
      case solve_columns stop A B D u tol1 [0..<mat_n B] (init_work B) of
        None \<Rightarrow> None
      | Some st \<Rightarrow>
          Some (\<lparr>log_m = mat_m B, log_n = mat_n B, nzmax = X_nzmax st,
                 log_jc = X_jc st @ [length (X_ir st)], log_ir = X_ir st\<rparr>,
                X_sum st))"

section \<open>\<open>mexFunction\<close>\<close>

text \<open>What the entry point reads of a MATLAB array (\<open>mxIsSparse\<close>, \<open>mxIsDouble\<close>,
  \<open>mxIsComplex\<close>, \<open>mxGetM\<close>, \<open>mxGetN\<close>, \<open>mxGetJc\<close>, \<open>mxGetIr\<close>, \<open>mxGetPr\<close>).\<close>

record mxArray =
  mxIsSparse :: bool
  mxIsDouble :: bool
  mxIsComplex :: bool
  mxGetM :: nat
  mxGetN :: nat
  mxGetJc :: "nat list"
  mxGetIr :: "nat list"
  mxGetPr :: "real list"

text \<open>The outcome of a call: a warning and an early return with \<open>plhs\<close> untouched, or the
  two outputs: \<open>plhs[0]\<close>, a sparse logical matrix given by its dimensions, column
  pointers, row indices and logical values, and \<open>plhs[1]\<close>, the dense column \<open>X_sum\<close>.\<close>

datatype mex_result =
  Warning string
| Outputs "nat \<times> nat \<times> nat list \<times> nat list \<times> bool list" "real list"

definition mexFunction :: "nat \<Rightarrow> int \<Rightarrow> int \<Rightarrow> mxArray list \<Rightarrow> mex_result option" where
  "mexFunction stop nlhs nrhs prhs =
     (if nrhs \<noteq> 5 then Some (Warning ''Five inputs required.'')
      else if nlhs \<noteq> 2 then Some (Warning ''Two outputs required.'')
      else if \<not> mxIsSparse (prhs ! 0) \<or> \<not> mxIsDouble (prhs ! 0) \<or> mxIsComplex (prhs ! 0)
        then Some (Warning ''First input not a sparse, double, real matrix.'')
      else if \<not> mxIsSparse (prhs ! 1) \<or> \<not> mxIsDouble (prhs ! 1) \<or> mxIsComplex (prhs ! 1)
        then Some (Warning ''Second input not a sparse, double, real matrix.'')
      else if mxIsSparse (prhs ! 2) \<or> \<not> mxIsDouble (prhs ! 2) \<or> mxIsComplex (prhs ! 2)
        then Some (Warning ''Third input not a full, double, real array.'')
      else if mxIsSparse (prhs ! 3) \<or> \<not> mxIsDouble (prhs ! 3) \<or> mxIsComplex (prhs ! 3)
        then Some (Warning ''Fourth input not a full, double, real array.'')
      else if mxIsSparse (prhs ! 4) \<or> \<not> mxIsDouble (prhs ! 4) \<or> mxIsComplex (prhs ! 4)
              \<or> mxGetM (prhs ! 4) \<noteq> 1 \<or> mxGetN (prhs ! 4) \<noteq> 1
        then Some (Warning ''Fifth input not a double real scalar.'')
      else
        (let A = \<lparr>mat_m = mxGetM (prhs ! 0), mat_n = mxGetN (prhs ! 0),
                  jc = mxGetJc (prhs ! 0), ir = mxGetIr (prhs ! 0), pr = mxGetPr (prhs ! 0)\<rparr>;
             B = \<lparr>mat_m = mxGetM (prhs ! 1), mat_n = mxGetN (prhs ! 1),
                  jc = mxGetJc (prhs ! 1), ir = mxGetIr (prhs ! 1), pr = mxGetPr (prhs ! 1)\<rparr>;
             D = mxGetPr (prhs ! 2);
             u = mxGetPr (prhs ! 3);
             tol = mxGetPr (prhs ! 4) ! 0
         in if mat_m A \<noteq> mat_n A then Some (Warning ''A not square.'')
            else if mat_m A \<noteq> mat_m B then Some (Warning ''rows(A) != rows(B)'')
            else if mxGetM (prhs ! 2) \<noteq> mat_m A \<or> mxGetN (prhs ! 2) \<noteq> 1
              then Some (Warning ''D not a column vector, or rows(D) != rows(A)'')
            else if mxGetM (prhs ! 3) \<noteq> mat_n B \<or> mxGetN (prhs ! 3) \<noteq> 1
              then Some (Warning ''u not a column vector, or rows(u) != cols(B)'')
            else
              (case interp_skel stop A B D u tol of
                 None \<Rightarrow> None
               | Some (X_skel, Xs) \<Rightarrow>
                   (let nz = log_jc X_skel ! log_n X_skel in
                    Some (Outputs
                      (mat_m B, mat_n B, take (log_n X_skel + 1) (log_jc X_skel),
                       take nz (log_ir X_skel), replicate nz True)
                      Xs)))))"

section \<open>Notions used in the statements\<close>

text \<open>\<open>STOP_TEST\<close> is a macro that the build may define; when it does not, lines 12-14
  give it the value 2.\<close>

definition STOP_TEST :: "nat option \<Rightarrow> nat" where
  "STOP_TEST cfg = (case cfg of None \<Rightarrow> 2 | Some v \<Rightarrow> v)"



text \<open>The row indices stored for column \<open>j\<close> of the emitted \<open>X_skel\<close>.\<close>

definition skel_column :: "sp_log_mat \<Rightarrow> nat \<Rightarrow> nat list" where
  "skel_column X j = take (log_jc X ! (j + 1) - log_jc X ! j) (drop (log_jc X ! j) (log_ir X))"

text \<open>The inputs that break one of the five preconditions on shapes and types: \<open>A\<close> not
  square, \<open>rows(A) \<noteq> rows(B)\<close>, \<open>D\<close> not an \<open>m \<times> 1\<close> column, \<open>u\<close> not an \<open>n \<times> 1\<close> column
  with \<open>n = cols(B)\<close>, \<open>tol\<close> not a real double scalar.\<close>

definition shape_violation :: "mxArray list \<Rightarrow> bool" where
  "shape_violation prhs =
     (mxGetM (prhs ! 0) \<noteq> mxGetN (prhs ! 0)
      \<or> mxGetM (prhs ! 0) \<noteq> mxGetM (prhs ! 1)
      \<or> (mxGetM (prhs ! 2) \<noteq> mxGetM (prhs ! 0) \<or> mxGetN (prhs ! 2) \<noteq> 1)
      \<or> (mxGetM (prhs ! 3) \<noteq> mxGetN (prhs ! 1) \<or> mxGetN (prhs ! 3) \<noteq> 1)
      \<or> (\<not> mxIsDouble (prhs ! 4) \<or> mxIsComplex (prhs ! 4)
          \<or> mxGetM (prhs ! 4) \<noteq> 1 \<or> mxGetN (prhs ! 4) \<noteq> 1))"

text \<open>What the spec says of \<open>resid_update\<close>, entry by entry. \<open>resid_value\<close> is the entry
  \<open>r_i\<close>: \<open>x_i - alpha y_i\<close> where both are present, \<open>x_i\<close> where only \<open>x\<close> is, \<open>- alpha y_i\<close>
  where only \<open>y\<close> is. \<open>beta_value\<close> is the new \<open>beta_i\<close>: incremented by \<open>y_i\<^sup>2\<close> where
  both are present, set to \<open>y_i\<^sup>2\<close> where only \<open>y\<close> is, untouched where \<open>y\<close> is absent.\<close>

definition resid_value :: "real \<Rightarrow> (nat \<times> real) list \<Rightarrow> (nat \<times> real) list \<Rightarrow> nat \<Rightarrow> real" where
  "resid_value alpha x y i =
     (case (map_of x i, map_of y i) of
        (Some a, Some b) \<Rightarrow> a - alpha * b
      | (Some a, None) \<Rightarrow> a
      | (None, Some b) \<Rightarrow> - alpha * b
      | (None, None) \<Rightarrow> 0)"

definition beta_value :: "real list \<Rightarrow> (nat \<times> real) list \<Rightarrow> (nat \<times> real) list \<Rightarrow> nat \<Rightarrow> real" where
  "beta_value bt x y i =
     (case map_of y i of
        None \<Rightarrow> bt ! i
      | Some b \<Rightarrow> (case map_of x i of None \<Rightarrow> b * b | Some a \<Rightarrow> bt ! i + b * b))"




section \<open>Concrete inputs\<close>

text \<open>The matrices of the scenarios: \<open>diag(4,9)\<close>, the columns \<open>(1,1)\<close> and \<open>(1,5)\<close>,
  a \<open>2 \<times> 2\<close> matrix whose first column is empty, and the identity of order 4.\<close>

definition A_diag49 :: sp_mat_c where
  "A_diag49 = \<lparr>mat_m = 2, mat_n = 2, jc = [0, 1, 2], ir = [0, 1], pr = [4, 9]\<rparr>"

definition B_ones :: sp_mat_c where
  "B_ones = \<lparr>mat_m = 2, mat_n = 1, jc = [0, 2], ir = [0, 1], pr = [1, 1]\<rparr>"

definition B_one_five :: sp_mat_c where
  "B_one_five = \<lparr>mat_m = 2, mat_n = 1, jc = [0, 2], ir = [0, 1], pr = [1, 5]\<rparr>"

definition B_gap :: sp_mat_c where
  "B_gap = \<lparr>mat_m = 2, mat_n = 2, jc = [0, 0, 1], ir = [1], pr = [1]\<rparr>"


definition mx_sparse :: "nat \<Rightarrow> nat \<Rightarrow> mxArray" where
  "mx_sparse mm nn = \<lparr>mxIsSparse = True, mxIsDouble = True, mxIsComplex = False,
     mxGetM = mm, mxGetN = nn, mxGetJc = replicate (nn + 1) 0, mxGetIr = [], mxGetPr = []\<rparr>"

definition mx_full :: "nat \<Rightarrow> nat \<Rightarrow> mxArray" where
  "mx_full mm nn = \<lparr>mxIsSparse = False, mxIsDouble = True, mxIsComplex = False,
     mxGetM = mm, mxGetN = nn, mxGetJc = [], mxGetIr = [], mxGetPr = replicate (mm * nn) 1\<rparr>"

definition I4 :: sp_mat_c where
  "I4 = \<lparr>mat_m = 4, mat_n = 4, jc = [0, 1, 2, 3, 4], ir = [0, 1, 2, 3], pr = [1, 1, 1, 1]\<rparr>"

text \<open>\<open>evals t v\<close> says that the term \<open>t\<close> has the value \<open>v\<close>. The runs on concrete
  inputs below are computed one step after the other through premises of this form, each
  solved by simplifying \<open>t\<close>.\<close>

definition evals :: "'a \<Rightarrow> 'a \<Rightarrow> bool" where
  "evals t v \<longleftrightarrow> t = v"

section \<open>Notions used in the proofs\<close>

text \<open>\<open>is_heap h n\<close>: the first \<open>n\<close> entries of \<open>h\<close>, addressed from 1, form a max-heap.
  \<open>heap_but_up\<close> and \<open>heap_but_down\<close> are the heap order with one exception, between
  \<open>hole\<close> and its parent, resp. between \<open>hole\<close> and its children, as it stands during a
  sift. \<open>drain_inv a hi\<close> is the invariant of the drain loop: a heap of size \<open>hi\<close> below
  a sorted tail of larger entries.\<close>

definition is_heap :: "nat list \<Rightarrow> nat \<Rightarrow> bool" where
  "is_heap h n \<longleftrightarrow> (\<forall>k. 2 \<le> k \<and> k \<le> n \<longrightarrow> heap_get h k \<le> heap_get h (k div 2))"

definition heap_but_up :: "nat list \<Rightarrow> nat \<Rightarrow> nat \<Rightarrow> bool" where
  "heap_but_up g n hole \<longleftrightarrow>
     (\<forall>k. 2 \<le> k \<and> k \<le> n \<and> k \<noteq> hole \<longrightarrow> heap_get g k \<le> heap_get g (k div 2))
     \<and> (\<forall>k. 2 \<le> k \<and> k \<le> n \<and> k div 2 = hole \<and> 2 \<le> hole
            \<longrightarrow> heap_get g k \<le> heap_get g (hole div 2))"

definition heap_but_down :: "nat list \<Rightarrow> nat \<Rightarrow> nat \<Rightarrow> bool" where
  "heap_but_down g n hole \<longleftrightarrow>
     (\<forall>k. 2 \<le> k \<and> k \<le> n \<and> k div 2 \<noteq> hole \<longrightarrow> heap_get g k \<le> heap_get g (k div 2))
     \<and> (\<forall>k. 2 \<le> k \<and> k \<le> n \<and> k div 2 = hole \<and> 2 \<le> hole
            \<longrightarrow> heap_get g k \<le> heap_get g (hole div 2))"

definition drain_inv :: "nat list \<Rightarrow> nat \<Rightarrow> bool" where
  "drain_inv a hi \<longleftrightarrow>
     hi \<le> length a \<and> is_heap a hi \<and> sorted (drop hi a)
     \<and> (\<forall>x \<in> set (take hi a). \<forall>y \<in> set (drop hi a). x \<le> y)"



definition term_sum :: "(nat \<times> real) list \<Rightarrow> nat \<Rightarrow> real" where
  "term_sum ts i = (\<Sum>(i', c) \<leftarrow> ts. if i' = i then c else 0)"



section \<open>Stopping norms and the expansion loop\<close>












lemma expand_loop_invariant:
  assumes run: "expand_loop stop A D u j tol st = Some st'"
    and "I st"
    and "\<And>s. I s \<Longrightarrow> tol < cur_norm s \<Longrightarrow> I (expand_step stop A D u j s)"
  shows "I st' \<and> \<not> tol < cur_norm st'"
proof -
  let ?P = "\<lambda>stop A D u j tol st st'.
        (\<forall>s. I s \<longrightarrow> tol < cur_norm s \<longrightarrow> I (expand_step stop A D u j s)) \<longrightarrow> I st
        \<longrightarrow> I st' \<and> \<not> tol < cur_norm st'"
  have "?P stop A D u j tol st st'"
  proof (rule expand_loop.raw_induct [where P = ?P, OF _ run])
    fix loop stop A D u j tol st st'
    assume IH: "\<And>A D u j tol st b y. loop A D u j tol st b = Some y \<Longrightarrow> ?P A D u j tol st b y"
      and eq: "(if tol < cur_norm st then loop stop A D u j tol (expand_step stop A D u j st)
                else Some st) = Some st'"
    show "?P stop A D u j tol st st'"
    proof (cases "tol < cur_norm st")
      case True
      then have "loop stop A D u j tol (expand_step stop A D u j st) = Some st'"
        using eq by simp
      from IH [OF this] show ?thesis using True by blast
    next
      case False
      then have "st' = st" using eq by simp
      then show ?thesis using False by simp
    qed
  qed
  then show ?thesis using assms by blast
qed

lemma expand_loop_terminates:
  assumes "I st"
    and "\<And>s. I s \<Longrightarrow> tol < cur_norm s \<Longrightarrow>
           I (expand_step stop A D u j s) \<and> f (expand_step stop A D u j s) < (f s :: nat)"
  shows "\<exists>st'. expand_loop stop A D u j tol st = Some st'"
  using assms(1)
proof (induction "f st" arbitrary: st rule: less_induct)
  case less
  show ?case
  proof (cases "tol < cur_norm st")
    case True
    from assms(2) [OF less.prems True] less.hyps
    have "\<exists>st'. expand_loop stop A D u j tol (expand_step stop A D u j st) = Some st'"
      by blast
    then show ?thesis using True by (subst expand_loop.simps) simp
  next
    case False
    then show ?thesis by (subst expand_loop.simps) simp
  qed
qed

lemma expand_step_X_jc [simp]: "X_jc (expand_step stop A D u j st) = X_jc st"
  by (simp add: expand_step_def Let_def split: prod.splits)

lemma expand_step_Qi_off [simp]: "Qi_off (expand_step stop A D u j st) = Qi_off st"
  by (simp add: expand_step_def Let_def split: prod.splits)

lemma expand_step_X_ir [simp]: "X_ir (expand_step stop A D u j st) = X_ir st @ [cur_s st]"
  by (simp add: expand_step_def Let_def split: prod.splits)

lemma expand_step_cur_k [simp]: "cur_k (expand_step stop A D u j st) = cur_k st + 1"
  by (simp add: expand_step_def Let_def split: prod.splits)

lemma expand_step_map_to_Qi [simp]:
  "map_to_Qi (expand_step stop A D u j st) = (map_to_Qi st)[cur_s st := int (cur_k st)]"
  by (simp add: expand_step_def Let_def split: prod.splits)

lemma finish_column_fields [simp]:
  "X_jc (finish_column st) = X_jc st"
  "X_sum (finish_column st) = X_sum st"
  "Qi_off st \<le> length (X_ir st) \<Longrightarrow>
     take (Qi_off st) (X_ir (finish_column st)) = take (Qi_off st) (X_ir st)"
  by (simp_all add: finish_column_def Let_def)

lemma expand_loop_not_entered:
  "\<not> tol < cur_norm st \<Longrightarrow> expand_loop stop A D u j tol st = Some st"
  by (subst expand_loop.simps) simp


section \<open>The loop over the columns\<close>

lemma finish_column_X_ir_length [simp]:
  "length (heap_sort (cur_k st) (drop (Qi_off st) (X_ir st))) = length (drop (Qi_off st) (X_ir st))
   \<Longrightarrow> length (X_ir (finish_column st)) = length (X_ir st)"
  by (simp add: finish_column_def Let_def)

lemma column_init_fields [simp]:
  "X_jc (column_init stop B D st j) = X_jc st"
  "X_ir (column_init stop B D st j) = X_ir st"
  "Qi_off (column_init stop B D st j) = Qi_off st"
  "cur_k (column_init stop B D st j) = cur_k st"
  "X_sum (column_init stop B D st j) = X_sum st"
  "map_to_Qi (column_init stop B D st j) = map_to_Qi st"
  "flag (column_init stop B D st j) = flag st"
  "Q_tri (column_init stop B D st j) = Q_tri st"
  by (simp_all add: column_init_def Let_def split: prod.splits)

lemma solve_column_cases:
  assumes "solve_column stop A B D u tol st j = Some st'"
  obtains (empty) "jc B ! (j + 1) - jc B ! j < 1"
      "st' = st\<lparr>cur_k := 0, Qi_off := length (X_ir st), Q_tri := [],
                 X_jc := X_jc st @ [length (X_ir st)]\<rparr>"
  | (expand) st3 where "\<not> jc B ! (j + 1) - jc B ! j < 1"
      "expand_loop stop A D u j tol
         (column_init stop B D (st\<lparr>cur_k := 0, Qi_off := length (X_ir st), Q_tri := [],
                 X_jc := X_jc st @ [length (X_ir st)]\<rparr>) j) = Some st3"
      "st' = finish_column st3"
  using assms unfolding solve_column_def Let_def
  by (cases "jc B ! (j + 1) - jc B ! j < 1") (auto split: option.splits)

lemma solve_column_jc:
  assumes "solve_column stop A B D u tol st j = Some st'"
  shows "X_jc st' = X_jc st @ [length (X_ir st)]"
  using assms
proof (cases rule: solve_column_cases)
  case empty
  then show ?thesis by simp
next
  case (expand st3)
  have "X_jc st3 = X_jc st @ [length (X_ir st)]"
    using expand_loop_invariant [OF expand(2), of "\<lambda>s. X_jc s = X_jc st @ [length (X_ir st)]"]
    by simp
  then show ?thesis using expand(3) by simp
qed

lemma solve_column_prefix:
  assumes "solve_column stop A B D u tol st j = Some st'"
  shows "take (length (X_ir st)) (X_ir st') = X_ir st"
  using assms
proof (cases rule: solve_column_cases)
  case empty
  then show ?thesis by simp
next
  case (expand st3)
  let ?I = "\<lambda>s. Qi_off s = length (X_ir st) \<and> take (length (X_ir st)) (X_ir s) = X_ir st
               \<and> length (X_ir st) \<le> length (X_ir s)"
  have "?I st3"
    using expand_loop_invariant [OF expand(2), of ?I] by simp
  then show ?thesis using expand(3) finish_column_fields(3) [of st3] by simp
qed

lemma solve_columns_append:
  "solve_columns stop A B D u tol (js1 @ js2) st =
     (case solve_columns stop A B D u tol js1 st of None \<Rightarrow> None
      | Some st' \<Rightarrow> solve_columns stop A B D u tol js2 st')"
  by (induction js1 arbitrary: st) (simp_all split: option.splits)

lemma solve_columns_frame:
  assumes "solve_columns stop A B D u tol js st = Some fin"
  shows "take (length (X_jc st)) (X_jc fin) = X_jc st
         \<and> length (X_jc fin) = length (X_jc st) + length js
         \<and> take (length (X_ir st)) (X_ir fin) = X_ir st"
  using assms
proof (induction js arbitrary: st)
  case Nil
  then show ?case by simp
next
  case (Cons j js)
  then obtain st1 where st1: "solve_column stop A B D u tol st j = Some st1"
    and rest: "solve_columns stop A B D u tol js st1 = Some fin"
    by (auto split: option.splits)
  note IH = Cons.IH [OF rest]
  have jc1: "X_jc st1 = X_jc st @ [length (X_ir st)]" by (rule solve_column_jc [OF st1])
  have ir1: "take (length (X_ir st)) (X_ir st1) = X_ir st" by (rule solve_column_prefix [OF st1])
  have a: "take (length (X_jc st)) (X_jc fin) = X_jc st"
    using IH jc1 by (metis append_eq_conv_conj take_append length_append_singleton
        take_take min.absorb1 le_add1 Suc_eq_plus1 nat_le_linear take_all)
  have c: "take (length (X_ir st)) (X_ir fin) = X_ir st"
    using IH ir1 by (metis take_take min.absorb1 nat_le_linear take_all)
  show ?case using IH jc1 a c by (simp add: nth_append)
qed

lemma solve_columns_jc_nth:
  assumes "solve_columns stop A B D u tol js st = Some fin"
  shows "(X_jc fin @ [length (X_ir fin)]) ! length (X_jc st) = length (X_ir st)"
proof (cases js)
  case Nil
  then show ?thesis using assms by (simp add: nth_append)
next
  case (Cons j js')
  then obtain st1 where st1: "solve_column stop A B D u tol st j = Some st1"
    and rest: "solve_columns stop A B D u tol js' st1 = Some fin"
    using assms by (auto split: option.splits)
  have jc1: "X_jc st1 = X_jc st @ [length (X_ir st)]" by (rule solve_column_jc [OF st1])
  from solve_columns_frame [OF rest] have pre: "take (length (X_jc st1)) (X_jc fin) = X_jc st1"
    and len: "length (X_jc fin) = length (X_jc st1) + length js'" by simp_all
  have "X_jc fin ! length (X_jc st) = take (length (X_jc st1)) (X_jc fin) ! length (X_jc st)"
    using jc1 by simp
  also have "\<dots> = length (X_ir st)" unfolding pre using jc1 by simp
  finally show ?thesis using len jc1 by (simp add: nth_append)
qed

lemma interp_skel_column:
  assumes "interp_skel stop A B D u tol = Some (X, Xs)" and "j < mat_n B"
  obtains st st' where
    "solve_columns stop A B D u (adjust_tol stop tol) [0..<j] (init_work B) = Some st"
    "solve_column stop A B D u (adjust_tol stop tol) st j = Some st'"
    "log_jc X ! j = length (X_ir st)" "log_jc X ! (j + 1) = length (X_ir st')"
    "take (length (X_ir st')) (log_ir X) = X_ir st'"
    "take (length (X_ir st)) (X_ir st') = X_ir st"
proof -
  let ?t = "adjust_tol stop tol"
  from assms(1) obtain fin where
    fin: "solve_columns stop A B D u ?t [0..<mat_n B] (init_work B) = Some fin"
    and X: "log_jc X = X_jc fin @ [length (X_ir fin)]" "log_ir X = X_ir fin"
    by (auto simp: interp_skel_def Let_def split: option.splits)
  have split: "[0..<mat_n B] = [0..<j] @ [j] @ [j + 1..<mat_n B]"
    using assms(2) by (metis Suc_eq_plus1 append_Cons append_Nil le0 le_add_diff_inverse
        less_imp_le_nat upt_add_eq_append upt_conv_Cons)
  from fin obtain st where st: "solve_columns stop A B D u ?t [0..<j] (init_work B) = Some st"
    and r1: "solve_columns stop A B D u ?t ([j] @ [j + 1..<mat_n B]) st = Some fin"
    unfolding split solve_columns_append [of _ _ _ _ _ _ "[0..<j]"]
    by (auto split: option.splits)
  from r1 obtain st' where st': "solve_column stop A B D u ?t st j = Some st'"
    and r2: "solve_columns stop A B D u ?t [j + 1..<mat_n B] st' = Some fin"
    by (auto split: option.splits)
  have lj: "length (X_jc st) = j"
    using solve_columns_frame [OF st] by (simp add: init_work_def Let_def)
  have lj': "length (X_jc st') = j + 1"
    using solve_column_jc [OF st'] lj by simp
  have a: "log_jc X ! j = length (X_ir st)"
    using solve_columns_jc_nth [OF r1] lj X by simp
  have b: "log_jc X ! (j + 1) = length (X_ir st')"
    using solve_columns_jc_nth [OF r2] lj' X by simp
  have c: "take (length (X_ir st')) (log_ir X) = X_ir st'"
    using solve_columns_frame [OF r2] X by simp
  show ?thesis
    using that [OF st st' a b c solve_column_prefix [OF st']] .
qed

lemma skel_column_eq:
  assumes "log_jc X ! j = length xs" "log_jc X ! (j + 1) = length ys"
    "take (length ys) (log_ir X) = ys" "take (length xs) ys = xs"
  shows "skel_column X j = drop (length xs) ys"
proof -
  have "drop (length xs) ys = drop (length xs) (take (length ys) (log_ir X))"
    using assms(3) by simp
  also have "\<dots> = take (length ys - length xs) (drop (length xs) (log_ir X))"
    by (simp add: drop_take)
  finally show ?thesis using assms(1,2) by (simp add: skel_column_def)
qed


section \<open>Runs on concrete inputs\<close>

lemma evalsI: "evals v v"
  by (simp add: evals_def)

lemma replicate_numeral_eval: "replicate (numeral k) x = x # replicate (pred_numeral k) x"
  by (simp add: numeral_eq_Suc)

lemma expand_step_eq:
  assumes "evals (cur_k st) kk" "evals (cur_s st) s0" "evals (cur_w st) wv"
    and "evals (X_ir st @ [s0]) ir1"
    and "evals ((map_to_Qi st)[s0 := int kk]) mp1"
    and "evals (drop (Qi_off st) ir1) Qi"
    and "evals (sp_restrict_unsorted kk mp1 (jc A ! (s0 + 1) - jc A ! s0)
           (drop (jc A ! s0) (ir A)) (drop (jc A ! s0) (pr A))) qk0"
    and "evals (mv_utt kk (Q_tri st) qk0 @ drop kk (sp st)) sp1"
    and "evals (mv_ut kk (Q_tri st) sp1) qk1"
    and "evals (- 1 / sqrt (D ! s0 - beta st ! s0)) norm_fac"
    and "evals (map (\<lambda>v. v * norm_fac) (take kk qk1) @ [- norm_fac]) qk"
    and "evals (foldl (\<lambda>X m. X[Qi ! m := X ! (Qi ! m) + u ! j * wv * qk ! m])
                  (X_sum st) [0..<kk + 1]) X_sum1"
    and "evals (sp_mv A (kk + 1) Qi qk sp1 (flag st) mp1) (Aqk_nz, Aqk_i, Aqk_p, sp2, flag1)"
    and "evals (rp st @ drop (length (rp st)) sp2) sp3"
    and "evals (resid_update (beta st) (zip (ri st) (take (length (ri st)) sp3)) wv
           (zip (take Aqk_nz Aqk_i) (take Aqk_nz Aqk_p)) mp1) (r1, beta1)"
    and "evals (rescan stop D beta1 (map fst r1) (map snd r1) s0 wv) (s1, w1, norm1)"
    and "evals (st\<lparr>X_ir := ir1,
        X_nzmax := (if length (X_ir st) = X_nzmax st then 2 * X_nzmax st else X_nzmax st),
        max_Q := (if kk + 1 > max_Q st then 2 * max_Q st else max_Q st),
        Q_tri := Q_tri st @ qk, X_sum := X_sum1, beta := beta1,
        ri := map fst r1, rp := map snd r1, sp := sp3,
        map_to_Qi := mp1, flag := flag1,
        cur_k := kk + 1, cur_s := s1, cur_w := w1, cur_norm := norm1\<rparr>) st'"
  shows "expand_step stop A D u j st = st'"
  using assms unfolding evals_def expand_step_def Let_def
  by (simp only: prod.case)

lemma expand_loop_step:
  "tol < cur_norm st \<Longrightarrow> expand_step stop A D u j st = st' \<Longrightarrow>
   expand_loop stop A D u j tol st' = r \<Longrightarrow> expand_loop stop A D u j tol st = r"
  by (subst expand_loop.simps) simp

lemma solve_column_eq:
  assumes "evals (st\<lparr>cur_k := 0, Qi_off := length (X_ir st), Q_tri := [],
                   X_jc := X_jc st @ [length (X_ir st)]\<rparr>) st1"
    and "\<not> jc B ! (j + 1) - jc B ! j < 1"
    and "evals (column_init stop B D st1 j) st2"
    and "expand_loop stop A D u j tol st2 = Some st3"
    and "evals (finish_column st3) st4"
  shows "solve_column stop A B D u tol st j = Some st4"
  using assms unfolding evals_def solve_column_def Let_def by simp

lemma solve_column_empty_eq:
  assumes "jc B ! (j + 1) - jc B ! j < 1"
    and "evals (st\<lparr>cur_k := 0, Qi_off := length (X_ir st), Q_tri := [],
                   X_jc := X_jc st @ [length (X_ir st)]\<rparr>) st1"
  shows "solve_column stop A B D u tol st j = Some st1"
  using assms unfolding evals_def solve_column_def Let_def by simp

lemma solve_columns_Cons_eq:
  assumes "solve_column stop A B D u tol st j = Some st1"
    and "solve_columns stop A B D u tol js st1 = r"
  shows "solve_columns stop A B D u tol (j # js) st = r"
  using assms by simp

lemma interp_skel_eq:
  assumes "evals (adjust_tol stop tol) tol1"
    and "evals (init_work B) st0"
    and "evals [0..<mat_n B] js"
    and "solve_columns stop A B D u tol1 js st0 = Some fin"
    and "evals (\<lparr>log_m = mat_m B, log_n = mat_n B, nzmax = X_nzmax fin,
                 log_jc = X_jc fin @ [length (X_ir fin)], log_ir = X_ir fin\<rparr>, X_sum fin) res"
  shows "interp_skel stop A B D u tol = Some res"
  using assms unfolding evals_def interp_skel_def Let_def by simp

lemmas heap_eval = heap_sort_def build_heap.simps drain.simps sift_down.simps build_sift.simps
  sift_up.simps heap_get_def heap_set_def

lemmas sub_eval = sp_restrict_unsorted_def mv_utt_def mv_ut_def tri_at_def
  rescan_def rescan_step_def norm_acc_def sp_mv_def sp_mv_col_def sp_mv_entry_def
  col_entries_def heap_eval Let_def upt_conv_Cons

lemmas col_eval = column_init_def init_scan_def init_step_def norm_acc_def finish_column_def
  heap_eval adjust_tol_def init_work_def replicate_numeral_eval upt_conv_Cons Let_def

lemmas inputs_eval = I4_def A_diag49_def B_ones_def B_one_five_def B_gap_def STOP_TEST_def

lemma run_I4_sum:
  "interp_skel 2 I4 I4 [1, 1, 1, 1] [1, 1, 1, 1] (1 / 1000000) =
     Some (\<lparr>log_m = 4, log_n = 4, nzmax = 8, log_jc = [0, 1, 2, 3, 4],
             log_ir = [0, 1, 2, 3]\<rparr>, [1, 1, 1, 1])"
  apply (rule trans)
   apply (rule interp_skel_eq)
       apply ((simp add: inputs_eval col_eval split del: if_split)?, rule evalsI)+
    apply (rule solve_columns_Cons_eq)
     apply (rule solve_column_eq)
         apply ((simp add: inputs_eval col_eval split del: if_split)?, rule evalsI)
        apply (simp add: inputs_eval)
       apply ((simp add: inputs_eval col_eval split del: if_split)?, rule evalsI)
      apply (rule expand_loop_step)
        apply simp
       apply (rule expand_step_eq)
                      apply ((simp add: inputs_eval sub_eval split del: if_split)?, rule evalsI)+
      apply (rule expand_loop_not_entered)
      apply simp
     apply ((simp add: inputs_eval col_eval split del: if_split)?, rule evalsI)
    apply (rule solve_columns_Cons_eq)
     apply (rule solve_column_eq)
         apply ((simp add: inputs_eval col_eval split del: if_split)?, rule evalsI)
        apply (simp add: inputs_eval)
       apply ((simp add: inputs_eval col_eval split del: if_split)?, rule evalsI)
      apply (rule expand_loop_step)
        apply simp
       apply (rule expand_step_eq)
                      apply ((simp add: inputs_eval sub_eval split del: if_split)?, rule evalsI)+
      apply (rule expand_loop_not_entered)
      apply simp
     apply ((simp add: inputs_eval col_eval split del: if_split)?, rule evalsI)
    apply (rule solve_columns_Cons_eq)
     apply (rule solve_column_eq)
         apply ((simp add: inputs_eval col_eval split del: if_split)?, rule evalsI)
        apply (simp add: inputs_eval)
       apply ((simp add: inputs_eval col_eval split del: if_split)?, rule evalsI)
      apply (rule expand_loop_step)
        apply simp
       apply (rule expand_step_eq)
                      apply ((simp add: inputs_eval sub_eval split del: if_split)?, rule evalsI)+
      apply (rule expand_loop_not_entered)
      apply simp
     apply ((simp add: inputs_eval col_eval split del: if_split)?, rule evalsI)
    apply (rule solve_columns_Cons_eq)
     apply (rule solve_column_eq)
         apply ((simp add: inputs_eval col_eval split del: if_split)?, rule evalsI)
        apply (simp add: inputs_eval)
       apply ((simp add: inputs_eval col_eval split del: if_split)?, rule evalsI)
      apply (rule expand_loop_step)
        apply simp
       apply (rule expand_step_eq)
                      apply ((simp add: inputs_eval sub_eval split del: if_split)?, rule evalsI)+
      apply (rule expand_loop_not_entered)
      apply simp
     apply ((simp add: inputs_eval col_eval split del: if_split)?, rule evalsI)
    apply simp
   apply ((simp add: inputs_eval)?, rule evalsI)
  apply simp
  done

lemma run_I4_max:
  "interp_skel 1 I4 I4 [1, 1, 1, 1] [1, 1, 1, 1] (1 / 1000000) =
     Some (\<lparr>log_m = 4, log_n = 4, nzmax = 8, log_jc = [0, 1, 2, 3, 4],
             log_ir = [0, 1, 2, 3]\<rparr>, [1, 1, 1, 1])"
  apply (rule trans)
   apply (rule interp_skel_eq)
       apply ((simp add: inputs_eval col_eval split del: if_split)?, rule evalsI)+
    apply (rule solve_columns_Cons_eq)
     apply (rule solve_column_eq)
         apply ((simp add: inputs_eval col_eval split del: if_split)?, rule evalsI)
        apply (simp add: inputs_eval)
       apply ((simp add: inputs_eval col_eval split del: if_split)?, rule evalsI)
      apply (rule expand_loop_step)
        apply simp
       apply (rule expand_step_eq)
                      apply ((simp add: inputs_eval sub_eval split del: if_split)?, rule evalsI)+
      apply (rule expand_loop_not_entered)
      apply simp
     apply ((simp add: inputs_eval col_eval split del: if_split)?, rule evalsI)
    apply (rule solve_columns_Cons_eq)
     apply (rule solve_column_eq)
         apply ((simp add: inputs_eval col_eval split del: if_split)?, rule evalsI)
        apply (simp add: inputs_eval)
       apply ((simp add: inputs_eval col_eval split del: if_split)?, rule evalsI)
      apply (rule expand_loop_step)
        apply simp
       apply (rule expand_step_eq)
                      apply ((simp add: inputs_eval sub_eval split del: if_split)?, rule evalsI)+
      apply (rule expand_loop_not_entered)
      apply simp
     apply ((simp add: inputs_eval col_eval split del: if_split)?, rule evalsI)
    apply (rule solve_columns_Cons_eq)
     apply (rule solve_column_eq)
         apply ((simp add: inputs_eval col_eval split del: if_split)?, rule evalsI)
        apply (simp add: inputs_eval)
       apply ((simp add: inputs_eval col_eval split del: if_split)?, rule evalsI)
      apply (rule expand_loop_step)
        apply simp
       apply (rule expand_step_eq)
                      apply ((simp add: inputs_eval sub_eval split del: if_split)?, rule evalsI)+
      apply (rule expand_loop_not_entered)
      apply simp
     apply ((simp add: inputs_eval col_eval split del: if_split)?, rule evalsI)
    apply (rule solve_columns_Cons_eq)
     apply (rule solve_column_eq)
         apply ((simp add: inputs_eval col_eval split del: if_split)?, rule evalsI)
        apply (simp add: inputs_eval)
       apply ((simp add: inputs_eval col_eval split del: if_split)?, rule evalsI)
      apply (rule expand_loop_step)
        apply simp
       apply (rule expand_step_eq)
                      apply ((simp add: inputs_eval sub_eval split del: if_split)?, rule evalsI)+
      apply (rule expand_loop_not_entered)
      apply simp
     apply ((simp add: inputs_eval col_eval split del: if_split)?, rule evalsI)
    apply simp
   apply ((simp add: inputs_eval)?, rule evalsI)
  apply simp
  done


lemma run_one_five:
  "interp_skel 2 A_diag49 B_one_five [4, 9] [1] (1 / 1000) =
     Some (\<lparr>log_m = 2, log_n = 1, nzmax = 4, log_jc = [0, 2], log_ir = [0, 1]\<rparr>,
           [1 / 4, 5 / 9])"
  apply (rule trans)
   apply (rule interp_skel_eq)
       apply ((simp add: inputs_eval col_eval split del: if_split)?, rule evalsI)+
    apply (rule solve_columns_Cons_eq)
     apply (rule solve_column_eq)
         apply ((simp add: inputs_eval col_eval split del: if_split)?, rule evalsI)
        apply (simp add: inputs_eval)
       apply ((simp add: inputs_eval col_eval split del: if_split)?, rule evalsI)
      apply (rule expand_loop_step)
        apply simp
       apply (rule expand_step_eq)
                      apply ((simp add: inputs_eval sub_eval split del: if_split)?, rule evalsI)+
      apply (rule expand_loop_step)
        apply simp
       apply (rule expand_step_eq)
                      apply ((simp add: inputs_eval sub_eval split del: if_split)?, rule evalsI)+
      apply (rule expand_loop_not_entered)
      apply simp
     apply ((simp add: inputs_eval col_eval split del: if_split)?, rule evalsI)
    apply simp
   apply ((simp add: inputs_eval)?, rule evalsI)
  apply simp
  done

lemma run_gap:
  "interp_skel 2 A_diag49 B_gap [4, 9] [1, 1] 1 =
     Some (\<lparr>log_m = 2, log_n = 2, nzmax = 2, log_jc = [0, 0, 0], log_ir = []\<rparr>, [0, 0])"
  apply (rule trans)
   apply (rule interp_skel_eq)
       apply ((simp add: inputs_eval col_eval split del: if_split)?, rule evalsI)+
    apply (rule solve_columns_Cons_eq)
     apply (rule solve_column_empty_eq)
      apply (simp add: inputs_eval)
     apply ((simp add: inputs_eval col_eval split del: if_split)?, rule evalsI)
    apply (rule solve_columns_Cons_eq)
     apply (rule solve_column_eq)
         apply ((simp add: inputs_eval col_eval split del: if_split)?, rule evalsI)
        apply (simp add: inputs_eval)
       apply ((simp add: inputs_eval col_eval split del: if_split)?, rule evalsI)
      apply (rule expand_loop_not_entered)
      apply simp
     apply ((simp add: inputs_eval col_eval split del: if_split)?, rule evalsI)
    apply simp
   apply ((simp add: inputs_eval)?, rule evalsI)
  apply simp
  done


section \<open>\<open>resid_update\<close>\<close>

lemma resid_update_beta_length:
  "length (snd (resid_update bt x alpha y msk)) = length bt"
  by (induction bt x alpha y msk rule: resid_update.induct)
     (simp_all add: Let_def case_prod_beta)

lemma resid_update_fst_set:
  "set (map fst (fst (resid_update bt x alpha y msk)))
   = {i \<in> fst ` set x \<union> fst ` set y. msk ! i < 0}"
  by (induction bt x alpha y msk rule: resid_update.induct)
     (auto simp: Let_def case_prod_beta)

lemma sorted_wrt_less_head:
  "sorted_wrt (<) (i # is) \<Longrightarrow> j \<in> set is \<Longrightarrow> i < (j::nat)"
  by simp

lemma resid_update_sorted:
  assumes "sorted_wrt (<) (map fst x)" "sorted_wrt (<) (map fst y)"
  shows "sorted_wrt (<) (map fst (fst (resid_update bt x alpha y msk)))"
  using assms
proof (induction bt x alpha y msk rule: resid_update.induct)
  case (1 beta ix x xs alpha iy y ys mask)
  show ?case
  proof (cases "ix < iy")
    case True
    have "sorted_wrt (<) (map fst (fst (resid_update beta xs alpha ((iy, y) # ys) mask)))"
      using 1(1) [OF True] 1(4,5) by simp
    moreover have "\<forall>j \<in> set (map fst (fst (resid_update beta xs alpha ((iy, y) # ys) mask))). ix < j"
      unfolding resid_update_fst_set using True 1(4,5) by auto
    ultimately show ?thesis using True by (simp add: Let_def case_prod_beta)
  next
    case False
    show ?thesis
    proof (cases "iy < ix")
      case lt: True
      have "sorted_wrt (<) (map fst (fst (resid_update (beta[iy := y * y]) ((ix, x) # xs) alpha ys mask)))"
        using 1(2) [OF False lt] 1(4,5) by simp
      moreover have "\<forall>j \<in> set (map fst (fst (resid_update (beta[iy := y * y]) ((ix, x) # xs) alpha ys mask))). iy < j"
        unfolding resid_update_fst_set using lt 1(4,5) by auto
      ultimately show ?thesis using False lt by (simp add: Let_def case_prod_beta)
    next
      case ge: False
      then have eq: "ix = iy" using False by simp
      have "sorted_wrt (<) (map fst (fst (resid_update (beta[iy := beta ! iy + y * y]) xs alpha ys mask)))"
        using 1(3) [OF False ge] 1(4,5) by simp
      moreover have "\<forall>j \<in> set (map fst (fst (resid_update (beta[iy := beta ! iy + y * y]) xs alpha ys mask))). iy < j"
        unfolding resid_update_fst_set using eq 1(4,5) by auto
      ultimately show ?thesis using False ge by (simp add: Let_def case_prod_beta)
    qed
  qed
next
  case (2 beta ix x xs alpha mask)
  have "sorted_wrt (<) (map fst (fst (resid_update beta xs alpha [] mask)))"
    using 2 by simp
  moreover have "\<forall>j \<in> set (map fst (fst (resid_update beta xs alpha [] mask))). ix < j"
    unfolding resid_update_fst_set using 2(2) by auto
  ultimately show ?case by (simp add: Let_def case_prod_beta)
next
  case (3 beta alpha iy y ys mask)
  have "sorted_wrt (<) (map fst (fst (resid_update (beta[iy := y * y]) [] alpha ys mask)))"
    using 3 by simp
  moreover have "\<forall>j \<in> set (map fst (fst (resid_update (beta[iy := y * y]) [] alpha ys mask))). iy < j"
    unfolding resid_update_fst_set using 3(3) by auto
  ultimately show ?case by (simp add: Let_def case_prod_beta)
next
  case (4 beta alpha mask)
  show ?case by simp
qed

lemma map_of_None_less:
  "sorted_wrt (<) (map fst ((j, v) # ys)) \<Longrightarrow> i < (j::nat) \<Longrightarrow> map_of ((j, v) # ys) i = None"
  by (auto simp: map_of_eq_None_iff)

lemma map_of_None_tail:
  "sorted_wrt (<) (map fst ((j, v) # ys)) \<Longrightarrow> map_of ys (j::nat) = None"
  by (auto simp: map_of_eq_None_iff)

lemma resid_update_fst_mem:
  "(i, v) \<in> set (fst (resid_update bt x alpha y msk)) \<Longrightarrow> i \<in> fst ` set x \<union> fst ` set y"
  using resid_update_fst_set [of bt x alpha y msk] by force

lemma resid_update_values:
  assumes "sorted_wrt (<) (map fst x)" "sorted_wrt (<) (map fst y)"
    and "(i, v) \<in> set (fst (resid_update bt x alpha y msk))"
  shows "v = resid_value alpha x y i"
  using assms
proof (induction bt x alpha y msk rule: resid_update.induct)
  case (1 beta ix x xs alpha iy y ys mask)
  note sx = \<open>sorted_wrt (<) (map fst ((ix, x) # xs))\<close>
    and sy = \<open>sorted_wrt (<) (map fst ((iy, y) # ys))\<close>
  show ?case
  proof (cases "ix < iy")
    case True
    show ?thesis
    proof (cases "(i, v) \<in> set (fst (resid_update beta xs alpha ((iy, y) # ys) mask))")
      case rec: True
      from resid_update_fst_mem [OF rec] sx sy True have "i \<noteq> ix" by auto
      moreover have "v = resid_value alpha xs ((iy, y) # ys) i"
        using 1(1) [OF True _ _ rec] sx sy by simp
      ultimately show ?thesis by (simp add: resid_value_def)
    next
      case False
      then have "i = ix" "v = x"
        using 1(6) True by (auto simp: Let_def case_prod_beta split: if_splits)
      then show ?thesis
        using map_of_None_less [OF sy True] by (simp add: resid_value_def)
    qed
  next
    case nlt: False
    show ?thesis
    proof (cases "iy < ix")
      case True
      show ?thesis
      proof (cases "(i, v) \<in> set (fst (resid_update (beta[iy := y * y]) ((ix, x) # xs) alpha ys mask))")
        case rec: True
        from resid_update_fst_mem [OF rec] sx sy True have "i \<noteq> iy" by auto
        moreover have "v = resid_value alpha ((ix, x) # xs) ys i"
          using 1(2) [OF nlt True _ _ rec] sx sy by simp
        ultimately show ?thesis by (simp add: resid_value_def)
      next
        case False
        then have "i = iy" "v = - alpha * y"
          using 1(6) nlt True by (auto simp: Let_def case_prod_beta split: if_splits)
        then show ?thesis
          using map_of_None_less [OF sx True] by (simp add: resid_value_def)
      qed
    next
      case False
      then have eq: "ix = iy" using nlt by simp
      show ?thesis
      proof (cases "(i, v) \<in> set (fst (resid_update (beta[iy := beta ! iy + y * y]) xs alpha ys mask))")
        case rec: True
        from resid_update_fst_mem [OF rec] sx sy eq have "i \<noteq> iy" by auto
        moreover have "v = resid_value alpha xs ys i"
          using 1(3) [OF nlt False _ _ rec] sx sy by simp
        ultimately show ?thesis using eq by (simp add: resid_value_def)
      next
        case nrec: False
        then have "i = iy" "v = x - alpha * y"
          using 1(6) nlt False by (auto simp: Let_def case_prod_beta split: if_splits)
        then show ?thesis using eq by (simp add: resid_value_def)
      qed
    qed
  qed
next
  case (2 beta ix x xs alpha mask)
  note sx = \<open>sorted_wrt (<) (map fst ((ix, x) # xs))\<close>
  show ?case
  proof (cases "(i, v) \<in> set (fst (resid_update beta xs alpha [] mask))")
    case rec: True
    from resid_update_fst_mem [OF rec] sx have "i \<noteq> ix" by auto
    moreover have "v = resid_value alpha xs [] i"
      using 2(1) [OF _ _ rec] sx by simp
    ultimately show ?thesis by (simp add: resid_value_def)
  next
    case False
    then have "i = ix" "v = x"
      using 2(4) by (auto simp: Let_def case_prod_beta split: if_splits)
    then show ?thesis by (simp add: resid_value_def)
  qed
next
  case (3 beta alpha iy y ys mask)
  note sy = \<open>sorted_wrt (<) (map fst ((iy, y) # ys))\<close>
  show ?case
  proof (cases "(i, v) \<in> set (fst (resid_update (beta[iy := y * y]) [] alpha ys mask))")
    case rec: True
    from resid_update_fst_mem [OF rec] sy have "i \<noteq> iy" by auto
    moreover have "v = resid_value alpha [] ys i"
      using 3(1) [OF _ _ rec] sy by simp
    ultimately show ?thesis by (simp add: resid_value_def)
  next
    case False
    then have "i = iy" "v = - alpha * y"
      using 3(4) by (auto simp: Let_def case_prod_beta split: if_splits)
    then show ?thesis by (simp add: resid_value_def)
  qed
next
  case (4 beta alpha mask)
  then show ?case by simp
qed

lemma resid_update_beta:
  assumes "sorted_wrt (<) (map fst x)" "sorted_wrt (<) (map fst y)" "i < length bt"
  shows "snd (resid_update bt x alpha y msk) ! i = beta_value bt x y i"
  using assms
proof (induction bt x alpha y msk rule: resid_update.induct)
  case (1 beta ix x xs alpha iy y ys mask)
  note sx = \<open>sorted_wrt (<) (map fst ((ix, x) # xs))\<close>
    and sy = \<open>sorted_wrt (<) (map fst ((iy, y) # ys))\<close>
  show ?case
  proof (cases "ix < iy")
    case True
    have "snd (resid_update beta xs alpha ((iy, y) # ys) mask) ! i
          = beta_value beta xs ((iy, y) # ys) i"
      using 1(1) [OF True] sx sy 1(6) by simp
    moreover have "beta_value beta xs ((iy, y) # ys) i = beta_value beta ((ix, x) # xs) ((iy, y) # ys) i"
      using map_of_None_less [OF sy True] True by (auto simp: beta_value_def split: option.splits)
    ultimately show ?thesis using True by (simp add: Let_def case_prod_beta)
  next
    case nlt: False
    show ?thesis
    proof (cases "iy < ix")
      case True
      have "snd (resid_update (beta[iy := y * y]) ((ix, x) # xs) alpha ys mask) ! i
          = beta_value (beta[iy := y * y]) ((ix, x) # xs) ys i"
        using 1(2) [OF nlt True] sx sy 1(6) by simp
      moreover have "beta_value (beta[iy := y * y]) ((ix, x) # xs) ys i
           = beta_value beta ((ix, x) # xs) ((iy, y) # ys) i"
        using map_of_None_less [OF sx True] map_of_None_tail [OF sy] 1(6) True
        by (auto simp: beta_value_def split: option.splits)
      ultimately show ?thesis using True nlt by (simp add: Let_def case_prod_beta)
    next
      case False
      then have eq: "ix = iy" using nlt by simp
      have "snd (resid_update (beta[iy := beta ! iy + y * y]) xs alpha ys mask) ! i
          = beta_value (beta[iy := beta ! iy + y * y]) xs ys i"
        using 1(3) [OF nlt False] sx sy 1(6) by simp
      moreover have "beta_value (beta[iy := beta ! iy + y * y]) xs ys i
           = beta_value beta ((ix, x) # xs) ((iy, y) # ys) i"
        using map_of_None_tail [OF sx] map_of_None_tail [OF sy] 1(6) eq
        by (auto simp: beta_value_def split: option.splits)
      ultimately show ?thesis using False nlt by (simp add: Let_def case_prod_beta)
    qed
  qed
next
  case (2 beta ix x xs alpha mask)
  then show ?case by (simp add: Let_def case_prod_beta beta_value_def)
next
  case (3 beta alpha iy y ys mask)
  note sy = \<open>sorted_wrt (<) (map fst ((iy, y) # ys))\<close>
  have "snd (resid_update (beta[iy := y * y]) [] alpha ys mask) ! i
          = beta_value (beta[iy := y * y]) [] ys i"
    using 3 by simp
  moreover have "beta_value (beta[iy := y * y]) [] ys i = beta_value beta [] ((iy, y) # ys) i"
    using map_of_None_tail [OF sy] 3(4)
    by (auto simp: beta_value_def split: option.splits)
  ultimately show ?case by (simp add: Let_def case_prod_beta)
next
  case (4 beta alpha mask)
  then show ?case by (simp add: beta_value_def)
qed

section \<open>Index heaps: sifting, draining, sorting\<close>

lemma length_heap_set [simp]: "length (heap_set h k v) = length h"
  by (simp add: heap_set_def)

lemma heap_get_set_same [simp]:
  "1 \<le> k \<Longrightarrow> k \<le> length h \<Longrightarrow> heap_get (heap_set h k v) k = v"
  by (simp add: heap_get_def heap_set_def)

lemma heap_get_set_other [simp]:
  "1 \<le> k \<Longrightarrow> 1 \<le> j \<Longrightarrow> j \<noteq> k \<Longrightarrow> heap_get (heap_set h k v) j = heap_get h j"
  by (auto simp: heap_get_def heap_set_def nth_list_update)

lemma heap_set_get_id [simp]: "heap_set h k (heap_get h k) = h"
  by (simp add: heap_get_def heap_set_def)

lemma mset_heap_swap:
  assumes "1 \<le> a" "a \<le> length g" "1 \<le> b" "b \<le> length g"
  shows "mset (heap_set (heap_set g a (heap_get g b)) b (heap_get g a)) = mset g"
  using assms mset_swap [of "b - 1" g "a - 1"]
  by (simp add: heap_get_def heap_set_def)

lemma heap_but_up_step:
  assumes inv: "heap_but_up g n hole" and h: "2 \<le> hole" "hole \<le> n" "n \<le> length g"
    and ge: "heap_get g (hole div 2) \<le> heap_get g hole"
  shows "heap_but_up (heap_set (heap_set g hole (heap_get g (hole div 2))) (hole div 2) (heap_get g hole))
           n (hole div 2)"
proof -
  let ?p = "hole div 2"
  let ?g' = "heap_set (heap_set g hole (heap_get g ?p)) ?p (heap_get g hole)"
  have p: "1 \<le> ?p" "?p < hole" "?p \<le> length g" using h by auto
  have G: "heap_get ?g' k = (if k = ?p then heap_get g hole else if k = hole then heap_get g ?p
      else heap_get g k)" if "1 \<le> k" for k
    using that p h by auto
  from inv have i1: "\<And>k. 2 \<le> k \<Longrightarrow> k \<le> n \<Longrightarrow> k \<noteq> hole \<Longrightarrow> heap_get g k \<le> heap_get g (k div 2)"
    and i2: "\<And>k. 2 \<le> k \<Longrightarrow> k \<le> n \<Longrightarrow> k div 2 = hole \<Longrightarrow> heap_get g k \<le> heap_get g ?p"
    using h by (auto simp: heap_but_up_def)
  have a: "heap_get ?g' k \<le> heap_get ?g' (k div 2)" if k: "2 \<le> k" "k \<le> n" "k \<noteq> ?p" for k
  proof -
    have k2: "1 \<le> k div 2" "1 \<le> k" using k by auto
    consider "k = hole" | "k \<noteq> hole" "k div 2 = hole" | "k \<noteq> hole" "k div 2 = ?p"
      | "k \<noteq> hole" "k div 2 \<noteq> hole" "k div 2 \<noteq> ?p" by blast
    then show ?thesis
    proof cases
      case 1
      then show ?thesis using G [OF k2(1)] G [OF k2(2)] ge p by simp
    next
      case 2
      then show ?thesis using G [OF k2(1)] G [OF k2(2)] i2 [OF k(1,2)] k p by simp
    next
      case 3
      then show ?thesis using G [OF k2(1)] G [OF k2(2)] i1 [OF k(1,2)] k ge p by simp
    next
      case 4
      then show ?thesis using G [OF k2(1)] G [OF k2(2)] i1 [OF k(1,2)] k by simp
    qed
  qed
  have b: "heap_get ?g' k \<le> heap_get ?g' (?p div 2)"
    if k: "2 \<le> k" "k \<le> n" "k div 2 = ?p" "2 \<le> ?p" for k
  proof -
    have pp: "1 \<le> ?p div 2" "?p div 2 \<noteq> ?p" "?p div 2 \<noteq> hole" "1 \<le> k" "k \<noteq> ?p"
      using k p by auto
    have pn: "?p \<le> n" "?p \<noteq> hole" using p h by auto
    have up: "heap_get g ?p \<le> heap_get g (?p div 2)" using i1 [OF k(4) pn] .
    show ?thesis
    proof (cases "k = hole")
      case True
      then show ?thesis using G [OF pp(1)] G [OF pp(4)] pp up by simp
    next
      case False
      then show ?thesis using G [OF pp(1)] G [OF pp(4)] pp up i1 [OF k(1,2) False] k by simp
    qed
  qed
  show ?thesis unfolding heap_but_up_def using a b by blast
qed

lemma heap_but_up_done:
  assumes "heap_but_up g n hole" and "hole \<le> 1 \<or> heap_get g hole \<le> heap_get g (hole div 2)"
  shows "is_heap g n"
  using assms unfolding heap_but_up_def is_heap_def by (metis One_nat_def Suc_1 not_less_eq_eq)

lemma sift_up_correct:
  assumes "heap_but_up (heap_set h hole i) n hole" "1 \<le> hole" "hole \<le> n" "n \<le> length h"
  shows "is_heap (sift_up h hole i) n \<and> mset (sift_up h hole i) = mset (heap_set h hole i)
         \<and> length (sift_up h hole i) = length h"
  using assms
proof (induction h hole i rule: sift_up.induct)
  case (1 heap hole i)
  let ?g = "heap_set heap hole i"
  let ?p = "hole div 2"
  let ?ip = "heap_get heap ?p"
  show ?case
  proof (cases "hole > 1")
    case False
    then have "sift_up heap hole i = ?g" by (subst sift_up.simps) simp
    moreover have "is_heap ?g n" using heap_but_up_done [OF 1(2)] False by simp
    ultimately show ?thesis by simp
  next
    case True
    then have p: "1 \<le> ?p" "?p < hole" "?p \<noteq> hole" by auto
    have gp: "heap_get ?g ?p = ?ip" using p 1(3) by simp
    have gh: "heap_get ?g hole = i" using 1(3-5) by simp
    show ?thesis
    proof (cases "i < ?ip")
      case lt: True
      then have "sift_up heap hole i = ?g" using True by (subst sift_up.simps) (simp add: Let_def)
      moreover have "is_heap ?g n"
        using heap_but_up_done [OF 1(2)] lt gp gh by simp
      ultimately show ?thesis by simp
    next
      case ge: False
      let ?h' = "heap_set heap hole ?ip"
      have unf: "sift_up heap hole i = sift_up ?h' ?p i"
        using True ge by (subst sift_up.simps) (simp add: Let_def)
      have sw: "heap_set ?h' ?p i = heap_set (heap_set ?g hole (heap_get ?g ?p)) ?p (heap_get ?g hole)"
        unfolding gp gh by (simp add: heap_set_def)
      have len: "hole \<le> length ?g" "n \<le> length ?g" using 1(4,5) by simp_all
      have "heap_but_up (heap_set ?h' ?p i) n ?p"
        unfolding sw using heap_but_up_step [OF 1(2) _ 1(4) len(2)] True ge gp gh by simp
      from 1(1) [OF True refl refl ge this] p 1(4,5)
      have IH: "is_heap (sift_up ?h' ?p i) n" "mset (sift_up ?h' ?p i) = mset (heap_set ?h' ?p i)"
        "length (sift_up ?h' ?p i) = length heap" by simp_all
      have "mset (heap_set ?h' ?p i) = mset ?g"
        unfolding sw using mset_heap_swap [of hole ?g ?p] p 1(3-5) by simp
      then show ?thesis using IH unf by simp
    qed
  qed
qed


lemma heap_but_down_step:
  assumes inv: "heap_but_down g m hole" and h: "1 \<le> hole" "c div 2 = hole" "2 \<le> c" "c \<le> m"
      "m \<le> length g"
    and larger: "\<And>k. 2 \<le> k \<Longrightarrow> k \<le> m \<Longrightarrow> k div 2 = hole \<Longrightarrow> heap_get g k \<le> heap_get g c"
    and lt: "heap_get g hole \<le> heap_get g c"
  shows "heap_but_down (heap_set (heap_set g hole (heap_get g c)) c (heap_get g hole)) m c"
proof -
  let ?g' = "heap_set (heap_set g hole (heap_get g c)) c (heap_get g hole)"
  have c: "hole < c" "1 \<le> c" "c \<le> length g" "hole \<le> length g" using h by auto
  have G: "heap_get ?g' k = (if k = c then heap_get g hole else if k = hole then heap_get g c
      else heap_get g k)" if "1 \<le> k" for k
    using that c h by auto
  from inv have i1: "\<And>k. 2 \<le> k \<Longrightarrow> k \<le> m \<Longrightarrow> k div 2 \<noteq> hole \<Longrightarrow> heap_get g k \<le> heap_get g (k div 2)"
    and i2: "\<And>k. 2 \<le> k \<Longrightarrow> k \<le> m \<Longrightarrow> k div 2 = hole \<Longrightarrow> 2 \<le> hole \<Longrightarrow>
                heap_get g k \<le> heap_get g (hole div 2)"
    by (auto simp: heap_but_down_def)
  have a: "heap_get ?g' k \<le> heap_get ?g' (k div 2)" if k: "2 \<le> k" "k \<le> m" "k div 2 \<noteq> c" for k
  proof -
    have k2: "1 \<le> k div 2" "1 \<le> k" "k div 2 < k" using k by auto
    consider "k = c" | "k \<noteq> c" "k div 2 = hole" | "k = hole"
      | "k \<noteq> c" "k \<noteq> hole" "k div 2 \<noteq> hole" by blast
    then show ?thesis
    proof cases
      case 1
      then show ?thesis using G [OF k2(1)] G [OF k2(2)] lt h c by simp
    next
      case 2
      then show ?thesis using G [OF k2(1)] G [OF k2(2)] larger [OF k(1,2)] k2 c by auto
    next
      case 3
      then have "2 \<le> hole" "hole div 2 \<noteq> c" "hole div 2 \<noteq> hole" using k c by auto
      then show ?thesis using 3 G [OF k2(1)] G [OF k2(2)] i2 [OF h(3,4,2)] c by simp
    next
      case 4
      then show ?thesis using G [OF k2(1)] G [OF k2(2)] i1 [OF k(1,2)] k by simp
    qed
  qed
  have b: "heap_get ?g' k \<le> heap_get ?g' (c div 2)" if k: "2 \<le> k" "k \<le> m" "k div 2 = c" for k
  proof -
    have kk: "1 \<le> k" "k \<noteq> c" "k \<noteq> hole" "c \<noteq> hole" using k c by auto
    have "heap_get g k \<le> heap_get g c" using i1 [OF k(1,2)] k kk by simp
    then show ?thesis using G [OF kk(1)] G [OF h(1)] kk h by simp
  qed
  show ?thesis unfolding heap_but_down_def using a b by blast
qed

lemma heap_but_down_done:
  assumes "heap_but_down g m hole"
    and "\<And>k. 2 \<le> k \<Longrightarrow> k \<le> m \<Longrightarrow> k div 2 = hole \<Longrightarrow> heap_get g k \<le> heap_get g hole"
  shows "is_heap g m"
  using assms unfolding heap_but_down_def is_heap_def by metis

lemma sift_down_unfold:
  assumes "hole \<noteq> 0"
  shows "sift_down heap hi i hole =
      (let c0 = 2 * hole; r = c0 + 1;
           c = (if r < hi \<and> heap_get heap r > heap_get heap c0 then r else c0) in
       if c \<ge> hi \<or> i \<ge> heap_get heap c then heap_set heap hole i
       else sift_down (heap_set heap hole (heap_get heap c)) hi i c)"
  by (subst sift_down.simps) (simp only: assms if_False)

lemma sift_down_correct:
  assumes "heap_but_down (heap_set h hole i) (hi - 1) hole" "1 \<le> hole" "hole < hi"
    "hi - 1 \<le> length h"
  shows "is_heap (sift_down h hi i hole) (hi - 1)
         \<and> mset (sift_down h hi i hole) = mset (heap_set h hole i)
         \<and> length (sift_down h hi i hole) = length h
         \<and> (\<forall>k \<ge> hi. heap_get (sift_down h hi i hole) k = heap_get h k)"
  using assms
proof (induction h hi i hole rule: sift_down.induct)
  case (1 heap hi i hole)
  let ?g = "heap_set heap hole i"
  define c0 where "c0 = 2 * hole"
  define r where "r = c0 + 1"
  define c where "c = (if r < hi \<and> heap_get heap r > heap_get heap c0 then r else c0)"
  have hole: "hole \<noteq> 0" "1 \<le> hole" "hole \<le> length heap" using 1(3-5) by auto
  have unf: "sift_down heap hi i hole =
      (if c \<ge> hi \<or> i \<ge> heap_get heap c then ?g
       else sift_down (heap_set heap hole (heap_get heap c)) hi i c)"
    by (simp only: sift_down_unfold [OF hole(1), of heap hi i] Let_def c_def r_def c0_def)
  have gh: "heap_get ?g hole = i" using hole by simp
  have go: "heap_get ?g k = heap_get heap k" if "1 \<le> k" "k \<noteq> hole" for k
    using that hole by simp
  have keep: "\<forall>k \<ge> hi. heap_get ?g k = heap_get heap k"
    using 1(4) hole by simp
  have cc: "c = c0 \<or> c = r" by (simp add: c_def)
  have cprops: "c div 2 = hole" "2 \<le> c" "hole < c" "1 \<le> c"
    using hole(2) cc unfolding c0_def r_def by auto
  have big: "heap_get heap k \<le> heap_get heap c"
    if k: "2 \<le> k" "k \<le> hi - 1" "k div 2 = hole" for k
  proof -
    have "k = 2 * hole \<or> k = 2 * hole + 1" using k(3) by arith
    then have "k = c0 \<or> k = r" by (simp add: c0_def r_def)
    moreover have "k < hi" using k(1,2) by arith
    ultimately show ?thesis unfolding c_def by auto
  qed
  have inside: "c < hi" if k: "2 \<le> k" "k \<le> hi - 1" "k div 2 = hole" for k
  proof -
    have "k = 2 * hole \<or> k = 2 * hole + 1" using k(3) by arith
    then have "k = c0 \<or> k = r" by (simp add: c0_def r_def)
    moreover have "k < hi" using k(1,2) by arith
    ultimately have "c0 < hi" unfolding r_def by arith
    then show ?thesis unfolding c_def by simp
  qed
  show ?case
  proof (cases "c \<ge> hi \<or> i \<ge> heap_get heap c")
    case True
    then have unf': "sift_down heap hi i hole = ?g" using unf by simp
    have small: "heap_get ?g k \<le> heap_get ?g hole"
      if k: "2 \<le> k" "k \<le> hi - 1" "k div 2 = hole" for k
    proof -
      have kk: "1 \<le> k" "k \<noteq> hole" using k by auto
      have "heap_get heap c \<le> i" using True inside [OF k] by simp
      then show ?thesis using big [OF k] gh go [OF kk] by simp
    qed
    have "is_heap ?g (hi - 1)"
      by (rule heap_but_down_done [OF 1(2)]) (rule small)
    then show ?thesis using unf' keep by simp
  next
    case False
    then have c: "c < hi" "i < heap_get heap c" by simp_all
    let ?h' = "heap_set heap hole (heap_get heap c)"
    have unf': "sift_down heap hi i hole = sift_down ?h' hi i c"
      using unf False by simp
    have gc: "heap_get ?g c = heap_get heap c" using cprops hole by simp
    have sw: "heap_set ?h' c i = heap_set (heap_set ?g hole (heap_get ?g c)) c (heap_get ?g hole)"
      unfolding gc gh by (simp add: heap_set_def)
    have larger: "heap_get ?g k \<le> heap_get ?g c"
      if k: "2 \<le> k" "k \<le> hi - 1" "k div 2 = hole" for k
    proof -
      have kk: "1 \<le> k" "k \<noteq> hole" using k by auto
      show ?thesis using big [OF k] gc go [OF kk] by simp
    qed
    have lt: "heap_get ?g hole \<le> heap_get ?g c" using c gh gc by simp
    have cm: "c \<le> hi - 1" "hi - 1 \<le> length ?g" using c 1(5) by simp_all
    have "heap_but_down (heap_set (heap_set ?g hole (heap_get ?g c)) c (heap_get ?g hole))
            (hi - 1) c"
    proof (rule heap_but_down_step [OF 1(2) hole(2) cprops(1,2) cm])
      show "heap_get ?g hole \<le> heap_get ?g c" by (rule lt)
    qed (rule larger)
    then have pre: "heap_but_down (heap_set ?h' c i) (hi - 1) c"
      unfolding sw .
    have "is_heap (sift_down ?h' hi i c) (hi - 1)
         \<and> mset (sift_down ?h' hi i c) = mset (heap_set ?h' c i)
         \<and> length (sift_down ?h' hi i c) = length ?h'
         \<and> (\<forall>k \<ge> hi. heap_get (sift_down ?h' hi i c) k = heap_get ?h' k)"
      using 1(1) [OF hole(1) c0_def r_def c_def False pre cprops(4) c(1)] 1(5) by simp
    then have IH: "is_heap (sift_down ?h' hi i c) (hi - 1)"
      "mset (sift_down ?h' hi i c) = mset (heap_set ?h' c i)"
      "length (sift_down ?h' hi i c) = length heap"
      "\<forall>k \<ge> hi. heap_get (sift_down ?h' hi i c) k = heap_get ?h' k"
      by simp_all
    have "mset (heap_set ?h' c i) = mset ?g"
      unfolding sw using mset_heap_swap [of hole ?g c] hole cprops c 1(5) by simp
    moreover have "\<forall>k \<ge> hi. heap_get ?h' k = heap_get heap k"
      using 1(4) hole by simp
    ultimately show ?thesis using IH unf' by simp
  qed
qed

lemma is_heap_root_max:
  assumes "is_heap a n" "1 \<le> k" "k \<le> n"
  shows "heap_get a k \<le> heap_get a 1"
  using assms(2,3)
proof (induction k rule: less_induct)
  case (less k)
  show ?case
  proof (cases "k = 1")
    case True
    then show ?thesis by simp
  next
    case False
    then have k: "2 \<le> k" "k div 2 < k" "1 \<le> k div 2" "k div 2 \<le> n" using less.prems by auto
    have "heap_get a k \<le> heap_get a (k div 2)"
      using assms(1) k(1) less.prems(2) by (simp add: is_heap_def)
    also have "\<dots> \<le> heap_get a 1" by (rule less.IH [OF k(2,3,4)])
    finally show ?thesis .
  qed
qed

lemma take_set_heap_get:
  "hi \<le> length a \<Longrightarrow> set (take hi a) = {heap_get a k | k. 1 \<le> k \<and> k \<le> hi}"
proof (intro set_eqI iffI)
  fix x assume h: "hi \<le> length a" and "x \<in> set (take hi a)"
  then obtain i where "i < hi" "x = a ! i" by (auto simp: in_set_conv_nth)
  then have "x = heap_get a (i + 1)" "1 \<le> i + 1" "i + 1 \<le> hi" by (simp_all add: heap_get_def)
  then show "x \<in> {heap_get a k | k. 1 \<le> k \<and> k \<le> hi}" by blast
next
  fix x assume h: "hi \<le> length a" and "x \<in> {heap_get a k | k. 1 \<le> k \<and> k \<le> hi}"
  then obtain k where k: "1 \<le> k" "k \<le> hi" "x = a ! (k - 1)" by (auto simp: heap_get_def)
  then have "k - 1 < length (take hi a)" "take hi a ! (k - 1) = x" using h by auto
  then show "x \<in> set (take hi a)" by (metis nth_mem)
qed

lemma drain_step:
  assumes inv: "drain_inv a hi" and hi: "1 < hi"
  defines "a2 \<equiv> sift_down (heap_set a hi (heap_get a 1)) hi (heap_get a hi) 1"
  shows "drain_inv a2 (hi - 1) \<and> mset a2 = mset a"
proof -
  let ?v = "heap_get a hi"
  let ?a1 = "heap_set a hi (heap_get a 1)"
  let ?g = "heap_set ?a1 1 ?v"
  from inv have len: "hi \<le> length a" and hp: "is_heap a hi" and so: "sorted (drop hi a)"
    and le: "\<And>x y. x \<in> set (take hi a) \<Longrightarrow> y \<in> set (drop hi a) \<Longrightarrow> x \<le> y"
    by (auto simp: drain_inv_def)
  have G: "heap_get ?g k = heap_get a k" if "1 \<le> k" "k \<noteq> 1" "k \<noteq> hi" for k
    using that hi by simp
  have pre: "heap_but_down ?g (hi - 1) 1"
    unfolding heap_but_down_def
  proof (intro conjI allI impI)
    fix k assume k: "2 \<le> k \<and> k \<le> hi - 1 \<and> k div 2 \<noteq> 1"
    then have kk: "1 \<le> k" "k \<noteq> 1" "k \<noteq> hi" "1 \<le> k div 2" "k div 2 \<noteq> hi" "k \<le> hi"
      by auto
    have "heap_get a k \<le> heap_get a (k div 2)" using hp k kk by (simp add: is_heap_def)
    then show "heap_get ?g k \<le> heap_get ?g (k div 2)"
      using G [OF kk(1,2,3)] G [of "k div 2"] k kk by simp
  next
    fix k assume "2 \<le> k \<and> k \<le> hi - 1 \<and> k div 2 = 1 \<and> (2::nat) \<le> 1"
    then show "heap_get ?g k \<le> heap_get ?g (1 div 2)" by simp
  qed
  have l1: "hi - 1 \<le> length ?a1" using len by simp
  from sift_down_correct [OF pre _ hi l1]
  have sd: "is_heap a2 (hi - 1)" "mset a2 = mset ?g" "length a2 = length a"
    "\<And>k. hi \<le> k \<Longrightarrow> heap_get a2 k = heap_get ?a1 k"
    by (simp_all add: a2_def)
  have sw: "mset ?g = mset a"
    using mset_heap_swap [of hi a 1] hi len by simp
  have ms: "mset a2 = mset a" using sd(2) sw by simp
  have nth2: "a2 ! j = (if j = hi - 1 then heap_get a 1 else a ! j)" if "hi - 1 \<le> j" "j < length a" for j
  proof -
    have "a2 ! j = heap_get a2 (j + 1)" by (simp add: heap_get_def)
    also have "\<dots> = heap_get ?a1 (j + 1)" using sd(4) [of "j + 1"] that by simp
    also have "\<dots> = (if j = hi - 1 then heap_get a 1 else a ! j)"
      using that hi len by (auto simp: heap_get_def heap_set_def)
    finally show ?thesis .
  qed
  have dr: "drop (hi - 1) a2 = heap_get a 1 # drop hi a"
  proof (rule nth_equalityI)
    show "length (drop (hi - 1) a2) = length (heap_get a 1 # drop hi a)"
      using sd(3) hi len by simp
  next
    fix i assume "i < length (drop (hi - 1) a2)"
    then have i: "hi - 1 + i < length a" using sd(3) by simp
    show "drop (hi - 1) a2 ! i = (heap_get a 1 # drop hi a) ! i"
    proof (cases i)
      case 0
      then show ?thesis using nth2 [of "hi - 1"] i sd(3) by simp
    next
      case (Suc i')
      then have e: "hi - 1 + i = hi + i'" "hi + i' \<noteq> hi - 1" "hi - 1 \<le> hi + i'"
        using hi by simp_all
      have "drop (hi - 1) a2 ! i = a2 ! (hi + i')" using e(1) i sd(3) by simp
      also have "\<dots> = a ! (hi + i')" using nth2 [OF e(3)] e(1,2) i by simp
      also have "\<dots> = (heap_get a 1 # drop hi a) ! i" using Suc len by simp
      finally show ?thesis .
    qed
  qed
  have root_in: "heap_get a 1 \<in> set (take hi a)"
    using take_set_heap_get [OF len] hi by auto
  have root_max: "x \<le> heap_get a 1" if "x \<in> set (take hi a)" for x
    using that take_set_heap_get [OF len] is_heap_root_max [OF hp] by auto
  have "mset (take (hi - 1) a2) + mset (drop (hi - 1) a2) = mset (take hi a) + mset (drop hi a)"
    using ms by (metis append_take_drop_id mset_append)
  then have "mset (take (hi - 1) a2) + {#heap_get a 1#} = mset (take hi a)"
    unfolding dr by simp
  then have sub: "set (take (hi - 1) a2) \<subseteq> set (take hi a)"
    by (metis mset_subset_eq_add_left set_mset_mono set_mset_mset)
  have s2: "sorted (drop (hi - 1) a2)"
    unfolding dr using so le [OF root_in] by simp
  have le2: "\<forall>x \<in> set (take (hi - 1) a2). \<forall>y \<in> set (drop (hi - 1) a2). x \<le> y"
  proof (intro ballI)
    fix x y assume x: "x \<in> set (take (hi - 1) a2)" and y: "y \<in> set (drop (hi - 1) a2)"
    from x sub have xa: "x \<in> set (take hi a)" by blast
    from y have "y = heap_get a 1 \<or> y \<in> set (drop hi a)" unfolding dr by simp
    then show "x \<le> y"
    proof
      assume "y = heap_get a 1"
      then show ?thesis using root_max [OF xa] by simp
    next
      assume "y \<in> set (drop hi a)"
      then show ?thesis by (rule le [OF xa])
    qed
  qed
  have "hi - 1 \<le> length a2" using sd(3) len by simp
  then show ?thesis
    unfolding drain_inv_def using sd(1) s2 le2 ms by blast
qed

lemma drain_correct:
  assumes "drain_inv a hi"
  shows "sorted (drain hi a) \<and> mset (drain hi a) = mset a"
  using assms
proof (induction hi a rule: drain.induct)
  case (1 hi heap)
  show ?case
  proof (cases "1 < hi")
    case True
    let ?a2 = "sift_down (heap_set heap hi (heap_get heap 1)) hi (heap_get heap hi) 1"
    have unf: "drain hi heap = drain (hi - 1) ?a2"
      using True by (subst drain.simps) (simp add: Let_def)
    from drain_step [OF 1(2) True] have st: "drain_inv ?a2 (hi - 1)" "mset ?a2 = mset heap"
      by simp_all
    from 1(1) [OF True refl refl st(1)] st(2) unf show ?thesis by simp
  next
    case False
    then have unf: "drain hi heap = heap" by (subst drain.simps) simp
    from 1(2) have so: "sorted (drop hi heap)"
      and le: "\<forall>x \<in> set (take hi heap). \<forall>y \<in> set (drop hi heap). x \<le> y"
      by (auto simp: drain_inv_def)
    have "length (take hi heap) \<le> 1" using False by simp
    then have "sorted (take hi heap)"
      by (cases "take hi heap") (auto simp: length_Suc_conv)
    then have "sorted (take hi heap @ drop hi heap)"
      using so le unfolding sorted_append by blast
    then show ?thesis using unf by simp
  qed
qed

lemma build_sift_eq_sift_up:
  "2 \<le> hole \<Longrightarrow> build_sift heap hole v = sift_up heap hole v"
proof (induction heap hole v rule: build_sift.induct)
  case (1 heap hole v)
  let ?p = "hole div 2"
  let ?vp = "heap_get heap ?p"
  let ?h1 = "heap_set heap hole ?vp"
  have b: "build_sift heap hole v =
      (if v < ?vp then heap_set heap hole v
       else if ?p > 1 then build_sift ?h1 ?p v else heap_set ?h1 ?p v)"
    by (subst build_sift.simps) (simp add: Let_def)
  have s: "sift_up heap hole v =
      (if v < ?vp then heap_set heap hole v else sift_up ?h1 ?p v)"
    using 1(2) by (subst sift_up.simps) (simp add: Let_def)
  show ?case
  proof (cases "v < ?vp")
    case True
    then show ?thesis using b s by simp
  next
    case False
    show ?thesis
    proof (cases "?p > 1")
      case True
      then have "build_sift ?h1 ?p v = sift_up ?h1 ?p v"
        using 1(1) [OF refl refl False refl True] by simp
      then show ?thesis using b s False True by simp
    next
      case np: False
      then have "sift_up ?h1 ?p v = heap_set ?h1 ?p v"
        by (subst sift_up.simps) simp
      then show ?thesis using b s False np by simp
    qed
  qed
qed

lemma build_heap_correct:
  assumes "is_heap heap (i - 1)" "2 \<le> i" "un \<le> length heap"
  shows "is_heap (build_heap un i heap) (max un (i - 1))
         \<and> mset (build_heap un i heap) = mset heap
         \<and> length (build_heap un i heap) = length heap"
  using assms
proof (induction un i heap rule: build_heap.induct)
  case (1 un i heap)
  show ?case
  proof (cases "i \<le> un")
    case False
    then have "build_heap un i heap = heap" by (subst build_heap.simps) simp
    moreover have "max un (i - 1) = i - 1" using False by simp
    ultimately show ?thesis using 1(2) by simp
  next
    case True
    define h1 where "h1 = (if heap_get heap i > heap_get heap (i div 2)
               then build_sift heap i (heap_get heap i) else heap)"
    have unf: "build_heap un i heap = build_heap un (i + 1) h1"
      using True unfolding h1_def by (subst build_heap.simps) simp
    have len: "i \<le> length heap" using True 1(4) by simp
    have h1: "is_heap h1 i \<and> mset h1 = mset heap \<and> length h1 = length heap"
    proof (cases "heap_get heap i > heap_get heap (i div 2)")
      case gt: True
      have "heap_but_up (heap_set heap i (heap_get heap i)) i i"
        unfolding heap_but_up_def
      proof (intro conjI allI impI)
        fix k assume k: "2 \<le> k \<and> k \<le> i \<and> k \<noteq> i"
        then have "k \<le> i - 1" by arith
        then show "heap_get (heap_set heap i (heap_get heap i)) k
            \<le> heap_get (heap_set heap i (heap_get heap i)) (k div 2)"
          using 1(2) k by (simp add: is_heap_def)
      next
        fix k assume "2 \<le> k \<and> k \<le> i \<and> k div 2 = i \<and> 2 \<le> i"
        then have False by auto
        then show "heap_get (heap_set heap i (heap_get heap i)) k
            \<le> heap_get (heap_set heap i (heap_get heap i)) (i div 2)" ..
      qed
      from sift_up_correct [OF this _ _ len] 1(3)
      have "is_heap (sift_up heap i (heap_get heap i)) i"
        "mset (sift_up heap i (heap_get heap i)) = mset heap"
        "length (sift_up heap i (heap_get heap i)) = length heap"
        by simp_all
      then show ?thesis using gt build_sift_eq_sift_up [OF 1(3)] by (simp add: h1_def)
    next
      case le: False
      have "is_heap heap i"
        unfolding is_heap_def
      proof (intro allI impI)
        fix k assume k: "2 \<le> k \<and> k \<le> i"
        show "heap_get heap k \<le> heap_get heap (k div 2)"
        proof (cases "k = i")
          case True
          then show ?thesis using le by simp
        next
          case False
          then have "k \<le> i - 1" using k by arith
          then show ?thesis using 1(2) k by (simp add: is_heap_def)
        qed
      qed
      then show ?thesis using le by (simp add: h1_def)
    qed
    then have pre: "is_heap h1 (i + 1 - 1)" "2 \<le> i + 1" "un \<le> length h1"
      using 1(3,4) by simp_all
    have IH: "is_heap (build_heap un (i + 1) h1) (max un (i + 1 - 1))
         \<and> mset (build_heap un (i + 1) h1) = mset h1
         \<and> length (build_heap un (i + 1) h1) = length h1"
      using 1(1) [OF True] pre unfolding h1_def by blast
    have m: "max un (i + 1 - 1) = un" "max un (i - 1) = un" using True by simp_all
    show ?thesis unfolding unf m(2) using IH h1 unfolding m(1) by simp
  qed
qed

lemma heap_sort_correct:
  "sorted (heap_sort (length uv) uv) \<and> mset (heap_sort (length uv) uv) = mset uv"
proof -
  let ?b = "build_heap (length uv) 2 uv"
  have "is_heap uv (2 - 1)" by (simp add: is_heap_def)
  from build_heap_correct [OF this, of "length uv"]
  have b: "is_heap ?b (max (length uv) 1)" "mset ?b = mset uv" "length ?b = length uv"
    by simp_all
  have "is_heap ?b (length uv)"
    using b(1) by (simp add: is_heap_def)
  then have "drain_inv ?b (length uv)"
    using b(3) by (simp add: drain_inv_def)
  from drain_correct [OF this] b(2) show ?thesis by (simp add: heap_sort_def)
qed

lemma heap_sort_small: "un \<le> 1 \<Longrightarrow> heap_sort un uv = uv"
  by (simp add: heap_sort_def build_heap.simps [of un 2] drain.simps [of un])


section \<open>The sparse product \<open>sp_mv\<close>\<close>





lemma term_sum_append [simp]: "term_sum (ts @ us) i = term_sum ts i + term_sum us i"
  by (simp add: term_sum_def)














section \<open>The claims\<close>

text \<open>
  Claim C2. For index-ascending \<open>x\<close> and \<open>y\<close>, \<open>resid_update\<close> emits \<open>r\<close> with strictly
  ascending indices, which are the indices of \<open>x\<close> or \<open>y\<close> with \<open>mask[i] < 0\<close> (the others
  are dropped), with the entries \<open>resid_value\<close>; \<open>beta\<close> keeps its length and gets the
  entries \<open>beta_value\<close> at every index, whatever the mask; and the number of emitted
  entries, which is the return value, is the number of admitted indices.
\<close>

theorem resid_update_spec:
  assumes "sorted_wrt (<) (map fst x)" and "sorted_wrt (<) (map fst y)"
    and "resid_update bt x alpha y msk = (r, bt')"
  shows "sorted_wrt (<) (map fst r)
       \<and> set (map fst r) = {i \<in> fst ` set x \<union> fst ` set y. msk ! i < 0}
       \<and> (\<forall>(i, v) \<in> set r. v = resid_value alpha x y i)
       \<and> length bt' = length bt
       \<and> (\<forall>i < length bt. bt' ! i = beta_value bt x y i)
       \<and> length r = card {i \<in> fst ` set x \<union> fst ` set y. msk ! i < 0}"
proof -
  have r: "r = fst (resid_update bt x alpha y msk)" and b: "bt' = snd (resid_update bt x alpha y msk)"
    using assms(3) by simp_all
  have s: "sorted_wrt (<) (map fst r)"
    unfolding r by (rule resid_update_sorted [OF assms(1,2)])
  have e: "set (map fst r) = {i \<in> fst ` set x \<union> fst ` set y. msk ! i < 0}"
    unfolding r by (rule resid_update_fst_set)
  have v: "\<forall>(i, v) \<in> set r. v = resid_value alpha x y i"
    unfolding r using resid_update_values [OF assms(1,2)] by blast
  have l: "length bt' = length bt"
    unfolding b by (rule resid_update_beta_length)
  have bv: "\<forall>i < length bt. bt' ! i = beta_value bt x y i"
    unfolding b using resid_update_beta [OF assms(1,2)] by blast
  have "distinct (map fst r)"
    using s by (simp add: strict_sorted_iff)
  then have "card (set (map fst r)) = length r"
    using distinct_card by fastforce
  then have c: "length r = card {i \<in> fst ` set x \<union> fst ` set y. msk ! i < 0}"
    using e by simp
  show ?thesis using s e v l bv c by blast
qed

theorem resid_update_spec_witness:
  "sorted_wrt (<) (map fst [(0::nat, 1::real), (2, 3)])
   \<and> sorted_wrt (<) (map fst [(1::nat, 5::real), (2, 7), (3, 1)])
   \<and> resid_update [0, 0, 0, 0] [(0, 1), (2, 3)] 2 [(1, 5), (2, 7), (3, 1)] [- 1, - 1, - 1, 0]
       = ([(0, 1), (1, - 10), (2, - 11)], [0, 25, 49, 1])
   \<and> {i \<in> fst ` set [(0::nat, 1::real), (2, 3)] \<union> fst ` set [(1::nat, 5::real), (2, 7), (3, 1)].
        [- 1, - 1, - 1, 0::int] ! i < 0} = {0, 1, 2}
   \<and> resid_value 2 [(0, 1), (2, 3)] [(1, 5), (2, 7), (3, 1)] 2 = - 11
   \<and> beta_value [0, 0, 0, 0] [(0, 1), (2, 3)] [(1, 5), (2, 7), (3, 1)] 3 = 1"
proof -
  have h: "sorted_wrt (<) (map fst [(0::nat, 1::real), (2, 3)])"
    "sorted_wrt (<) (map fst [(1::nat, 5::real), (2, 7), (3, 1)])"
    "resid_update [0, 0, 0, 0] [(0, 1), (2, 3)] 2 [(1, 5), (2, 7), (3, 1)] [- 1, - 1, - 1, 0]
       = ([(0, 1), (1, - 10), (2, - 11)], [0, 25, 49, 1])"
    by simp_all
  note t = resid_update_spec [OF h]
  from t have "set (map fst [(0::nat, 1::real), (1, - 10), (2, - 11)])
      = {i \<in> fst ` set [(0::nat, 1::real), (2, 3)] \<union> fst ` set [(1::nat, 5::real), (2, 7), (3, 1)].
        [- 1, - 1, - 1, 0::int] ! i < 0}"
    by blast
  then have a: "{i \<in> fst ` set [(0::nat, 1::real), (2, 3)] \<union> fst ` set [(1::nat, 5::real), (2, 7), (3, 1)].
        [- 1, - 1, - 1, 0::int] ! i < 0} = {0, 1, 2}"
    by simp
  from t have "\<forall>(i, v) \<in> set [(0::nat, 1::real), (1, - 10), (2, - 11)].
      v = resid_value 2 [(0, 1), (2, 3)] [(1, 5), (2, 7), (3, 1)] i"
    by blast
  then have b: "resid_value 2 [(0, 1), (2, 3)] [(1, 5), (2, 7), (3, 1)] 2 = - 11"
    by simp
  from t have "\<forall>i < length [0, 0, 0, 0::real]. [0, 25, 49, 1::real] ! i
      = beta_value [0, 0, 0, 0] [(0, 1), (2, 3)] [(1, 5), (2, 7), (3, 1)] i"
    by blast
  from this [rule_format, of 3]
  have c: "beta_value [0, 0, 0, 0] [(0, 1), (2, 3)] [(1, 5), (2, 7), (3, 1)] 3 = 1"
    by simp
  show ?thesis using h a b c by simp
qed







text \<open>
  Claim C7. When column \<open>j\<close> of \<open>B\<close> is empty, \<open>B.jc[j+1] = B.jc[j]\<close>, the column solver
  records the start of the column and returns at once: \<open>X_skel->ir\<close> and \<open>X_sum\<close> are
  unchanged, the loop goes on with the next column, and in the emitted \<open>X_skel\<close> column
  \<open>j\<close> is empty, \<open>col_ptr[j+1] = col_ptr[j]\<close>.
\<close>

theorem empty_column:
  assumes "jc B ! (j + 1) = jc B ! j"
  shows "(\<exists>st'. solve_column stop A B D u tol1 st j = Some st'
           \<and> X_jc st' = X_jc st @ [length (X_ir st)]
           \<and> X_ir st' = X_ir st \<and> X_sum st' = X_sum st
           \<and> solve_columns stop A B D u tol1 (j # js) st
               = solve_columns stop A B D u tol1 js st')
       \<and> (interp_skel stop A B D u tol = Some (X, Xs) \<longrightarrow> j < mat_n B \<longrightarrow>
             log_jc X ! (j + 1) = log_jc X ! j \<and> skel_column X j = [])"
proof (intro conjI impI)
  show "\<exists>st'. solve_column stop A B D u tol1 st j = Some st'
           \<and> X_jc st' = X_jc st @ [length (X_ir st)]
           \<and> X_ir st' = X_ir st \<and> X_sum st' = X_sum st
           \<and> solve_columns stop A B D u tol1 (j # js) st
               = solve_columns stop A B D u tol1 js st'"
    using assms by (simp add: solve_column_def)
next
  assume run: "interp_skel stop A B D u tol = Some (X, Xs)" and j: "j < mat_n B"
  from interp_skel_column [OF run j] obtain st st' where
    c: "solve_column stop A B D u (adjust_tol stop tol) st j = Some st'"
    and f: "log_jc X ! j = length (X_ir st)" "log_jc X ! (j + 1) = length (X_ir st')"
      "take (length (X_ir st')) (log_ir X) = X_ir st'"
      "take (length (X_ir st)) (X_ir st') = X_ir st"
    by blast
  have e: "X_ir st' = X_ir st"
    using c assms by (auto simp: solve_column_def)
  show "log_jc X ! (j + 1) = log_jc X ! j" using f e by simp
  show "skel_column X j = []" using skel_column_eq [OF f] e by simp
qed

theorem empty_column_witness:
  "jc B_gap ! (0 + 1) = jc B_gap ! 0
   \<and> interp_skel 2 A_diag49 B_gap [4, 9] [1, 1] 1 =
        Some (\<lparr>log_m = 2, log_n = 2, nzmax = 2, log_jc = [0, 0, 0], log_ir = []\<rparr>, [0, 0])
   \<and> 0 < mat_n B_gap
   \<and> log_jc \<lparr>log_m = 2, log_n = 2, nzmax = 2, log_jc = [0, 0, 0], log_ir = []\<rparr> ! (0 + 1)
       = log_jc \<lparr>log_m = 2, log_n = 2, nzmax = 2, log_jc = [0, 0, 0], log_ir = []\<rparr> ! 0
   \<and> skel_column \<lparr>log_m = 2, log_n = 2, nzmax = 2, log_jc = [0, 0, 0], log_ir = []\<rparr> 0 = []
   \<and> (\<exists>st'. solve_column 2 A_diag49 B_gap [4, 9] [1, 1] (1 / 2) (init_work B_gap) 0 = Some st'
          \<and> X_ir st' = X_ir (init_work B_gap) \<and> X_sum st' = X_sum (init_work B_gap)
          \<and> solve_columns 2 A_diag49 B_gap [4, 9] [1, 1] (1 / 2) [0, 1] (init_work B_gap)
               = solve_columns 2 A_diag49 B_gap [4, 9] [1, 1] (1 / 2) [1] st')"
proof -
  have h: "jc B_gap ! (0 + 1) = jc B_gap ! 0" by (simp add: B_gap_def)
  have n: "0 < mat_n B_gap" by (simp add: B_gap_def)
  from empty_column [OF h, of 2 A_diag49 "[4, 9]" "[1, 1]" "1 / 2" "init_work B_gap" "[1]" 1
      "\<lparr>log_m = 2, log_n = 2, nzmax = 2, log_jc = [0, 0, 0], log_ir = []\<rparr>" "[0, 0]"]
  show ?thesis using h n run_gap by auto
qed

text \<open>
  Claim C9. On the identity input \<open>A = B = I\<^sub>4\<close>, \<open>D = u = (1,1,1,1)\<close>, \<open>tol = 10\<^sup>-\<^sup>6\<close> the
  solver returns, under the default policy as under policy 1, \<open>X_skel = I\<^sub>4\<close>: column
  \<open>j\<close> holds the single row index \<open>j\<close>; and \<open>X_sum = (1,1,1,1)\<close>. The values are those of
  exact arithmetic, the arithmetic of the model.
\<close>

theorem identity_scenario:
  "interp_skel (STOP_TEST None) I4 I4 [1, 1, 1, 1] [1, 1, 1, 1] (1 / 1000000) =
     Some (\<lparr>log_m = 4, log_n = 4, nzmax = 8, log_jc = [0, 1, 2, 3, 4],
             log_ir = [0, 1, 2, 3]\<rparr>, [1, 1, 1, 1])
   \<and> interp_skel 1 I4 I4 [1, 1, 1, 1] [1, 1, 1, 1] (1 / 1000000) =
     Some (\<lparr>log_m = 4, log_n = 4, nzmax = 8, log_jc = [0, 1, 2, 3, 4],
             log_ir = [0, 1, 2, 3]\<rparr>, [1, 1, 1, 1])
   \<and> skel_column \<lparr>log_m = 4, log_n = 4, nzmax = 8, log_jc = [0, 1, 2, 3, 4],
             log_ir = [0, 1, 2, 3]\<rparr> 0 = [0]
   \<and> skel_column \<lparr>log_m = 4, log_n = 4, nzmax = 8, log_jc = [0, 1, 2, 3, 4],
             log_ir = [0, 1, 2, 3]\<rparr> 1 = [1]
   \<and> skel_column \<lparr>log_m = 4, log_n = 4, nzmax = 8, log_jc = [0, 1, 2, 3, 4],
             log_ir = [0, 1, 2, 3]\<rparr> 2 = [2]
   \<and> skel_column \<lparr>log_m = 4, log_n = 4, nzmax = 8, log_jc = [0, 1, 2, 3, 4],
             log_ir = [0, 1, 2, 3]\<rparr> 3 = [3]"
  using run_I4_sum run_I4_max by (simp add: STOP_TEST_def skel_column_def)

text \<open>
  Claim C10. For every input that breaks one of the five preconditions on shapes and
  types, the entry point issues a warning and returns early: it does not reach the
  creation of the outputs, whatever the other arguments are.
\<close>

theorem mexFunction_rejects:
  assumes "shape_violation prhs"
  shows "\<exists>msg. mexFunction stop nlhs nrhs prhs = Some (Warning msg)"
  using assms unfolding shape_violation_def mexFunction_def Let_def
  by auto

theorem mexFunction_rejects_witness:
  "shape_violation [mx_sparse 2 3, mx_sparse 2 1, mx_full 2 1, mx_full 1 1, mx_full 1 1]
   \<and> mexFunction 2 2 5 [mx_sparse 2 3, mx_sparse 2 1, mx_full 2 1, mx_full 1 1, mx_full 1 1]
       = Some (Warning ''A not square.'')
   \<and> shape_violation [mx_sparse 2 2, mx_sparse 2 1, mx_full 2 1, mx_full 1 1, mx_full 1 2]
   \<and> mexFunction 2 2 5 [mx_sparse 2 2, mx_sparse 2 1, mx_full 2 1, mx_full 1 1, mx_full 1 2]
       = Some (Warning ''Fifth input not a double real scalar.'')"
proof -
  have h: "shape_violation [mx_sparse 2 3, mx_sparse 2 1, mx_full 2 1, mx_full 1 1, mx_full 1 1]"
    "shape_violation [mx_sparse 2 2, mx_sparse 2 1, mx_full 2 1, mx_full 1 1, mx_full 1 2]"
    by (simp_all add: shape_violation_def mx_sparse_def mx_full_def)
  have "mexFunction 2 2 5 [mx_sparse 2 3, mx_sparse 2 1, mx_full 2 1, mx_full 1 1, mx_full 1 1]
       = Some (Warning ''A not square.'')"
    using mexFunction_rejects [OF h(1), of 2 2 5]
    by (simp add: mexFunction_def mx_sparse_def mx_full_def)
  moreover have
    "mexFunction 2 2 5 [mx_sparse 2 2, mx_sparse 2 1, mx_full 2 1, mx_full 1 1, mx_full 1 2]
       = Some (Warning ''Fifth input not a double real scalar.'')"
    using mexFunction_rejects [OF h(2), of 2 2 5]
    by (simp add: mexFunction_def mx_sparse_def mx_full_def)
  ultimately show ?thesis using h by simp
qed

end
